theory Spec2Isabelle
  imports Main "HOL-Library.Char_ord" "HOL-Library.List_Lexorder"
begin

section \<open>Go strings and the library calls of the encoder\<close>

text \<open>
  A Go string is a sequence of bytes, here a \<open>string\<close> (a list of 8-bit characters);
  \<open>sort.Strings\<close> orders strings byte by byte, which is the lexicographic order on
  \<open>char list\<close> of the two imported library theories.  The functions of this section
  model the calls into Go's \<open>strings\<close>, \<open>strconv\<close> and \<open>regexp\<close> packages that the
  encoder makes.
\<close>

text \<open>constants.go\<close>

abbreviation ListItemMarker :: string where "ListItemMarker \<equiv> ''-''"
abbreviation ListItemPrefix :: string where "ListItemPrefix \<equiv> ''- ''"
abbreviation Colon :: string where "Colon \<equiv> '':''"
abbreviation OpenBracket :: string where "OpenBracket \<equiv> ''[''"
abbreviation CloseBracket :: string where "CloseBracket \<equiv> '']''"
abbreviation OpenBrace :: string where "OpenBrace \<equiv> ''{''"
abbreviation CloseBrace :: string where "CloseBrace \<equiv> ''}''"
abbreviation NullLiteral :: string where "NullLiteral \<equiv> ''null''"
abbreviation TrueLiteral :: string where "TrueLiteral \<equiv> ''true''"
abbreviation FalseLiteral :: string where "FalseLiteral \<equiv> ''false''"
abbreviation Backslash :: string where "Backslash \<equiv> [CHR 0x5C]"
abbreviation DoubleQuote :: string where "DoubleQuote \<equiv> [CHR 0x22]"
abbreviation DefaultDelimiter :: string where "DefaultDelimiter \<equiv> '',''"

text \<open>\<open>strings.Join(elems, sep)\<close>\<close>

fun Join :: "string list \<Rightarrow> string \<Rightarrow> string" where
  "Join [] sep = []"
| "Join [x] sep = x"
| "Join (x # y # ys) sep = x @ sep @ Join (y # ys) sep"

text \<open>\<open>strings.HasPrefix\<close>, \<open>strings.HasSuffix\<close>, \<open>strings.Contains\<close> (the empty string is
  contained in every string) and \<open>strings.ContainsAny\<close> for a set of ASCII characters.\<close>

definition HasPrefix :: "string \<Rightarrow> string \<Rightarrow> bool" where
  "HasPrefix s p = (take (length p) s = p)"

definition HasSuffix :: "string \<Rightarrow> string \<Rightarrow> bool" where
  "HasSuffix s p = (length p \<le> length s \<and> drop (length s - length p) s = p)"

fun Contains :: "string \<Rightarrow> string \<Rightarrow> bool" where
  "Contains [] substr = (substr = [])"
| "Contains (c # s) substr = (HasPrefix (c # s) substr \<or> Contains s substr)"

definition ContainsAny :: "string \<Rightarrow> string \<Rightarrow> bool" where
  "ContainsAny s chars = list_ex (\<lambda>c. c \<in> set chars) s"

text \<open>\<open>strings.ReplaceAll(s, old, new)\<close> for a one-byte \<open>old\<close>, the only way
  \<open>escapeString\<close> calls it: every occurrence of the byte, left to right, is replaced.\<close>

definition ReplaceAll :: "string \<Rightarrow> char \<Rightarrow> string \<Rightarrow> string" where
  "ReplaceAll s old new = concat (map (\<lambda>c. if c = old then new else [c]) s)"

text \<open>\<open>strings.Repeat(s, count)\<close> for a count that is not negative and a result that
  the runtime can allocate.  The panics of \<open>strings.Repeat\<close> are modelled where
  \<open>NewLineWriter\<close> below calls it with the indent of the options.\<close>

definition Repeat :: "string \<Rightarrow> nat \<Rightarrow> string" where
  "Repeat s count = concat (replicate count s)"

text \<open>
  \<open>strings.TrimSpace\<close> removes the leading and the trailing runs of white-space runes
  (\<open>unicode.IsSpace\<close>).  On the bytes of the string a white-space rune is one of the
  UTF-8 encodings below: U+0009 to U+000D, U+0020, U+0085, U+00A0, U+1680, U+2000 to
  U+200A, U+2028, U+2029, U+202F, U+205F and U+3000.  A byte sequence that is not the
  shortest encoding of such a code point decodes to another rune or to the error rune,
  which is no white space.
\<close>

definition spaceRunes :: "string list" where
  "spaceRunes =
    [[CHR 0x09], [CHR 0x0A], [CHR 0x0B], [CHR 0x0C], [CHR 0x0D], [CHR 0x20],
     [CHR 0xC2, CHR 0x85], [CHR 0xC2, CHR 0xA0],
     [CHR 0xE1, CHR 0x9A, CHR 0x80],
     [CHR 0xE2, CHR 0x80, CHR 0x80], [CHR 0xE2, CHR 0x80, CHR 0x81],
     [CHR 0xE2, CHR 0x80, CHR 0x82], [CHR 0xE2, CHR 0x80, CHR 0x83],
     [CHR 0xE2, CHR 0x80, CHR 0x84], [CHR 0xE2, CHR 0x80, CHR 0x85],
     [CHR 0xE2, CHR 0x80, CHR 0x86], [CHR 0xE2, CHR 0x80, CHR 0x87],
     [CHR 0xE2, CHR 0x80, CHR 0x88], [CHR 0xE2, CHR 0x80, CHR 0x89],
     [CHR 0xE2, CHR 0x80, CHR 0x8A],
     [CHR 0xE2, CHR 0x80, CHR 0xA8], [CHR 0xE2, CHR 0x80, CHR 0xA9],
     [CHR 0xE2, CHR 0x80, CHR 0xAF], [CHR 0xE2, CHR 0x81, CHR 0x9F],
     [CHR 0xE3, CHR 0x80, CHR 0x80]]"

definition leadingSpace :: "string \<Rightarrow> string option" where
  "leadingSpace s = find (\<lambda>r. HasPrefix s r) spaceRunes"

definition trailingSpace :: "string \<Rightarrow> string option" where
  "trailingSpace s = find (\<lambda>r. HasSuffix s r) spaceRunes"

lemma spaceRunes_nonempty: "r \<in> set spaceRunes \<Longrightarrow> 0 < length r"
  by (auto simp: spaceRunes_def)

lemma leadingSpace_Some: "leadingSpace s = Some r \<Longrightarrow> 0 < length r \<and> length r \<le> length s"
proof -
  assume a: "leadingSpace s = Some r"
  then have m: "r \<in> set spaceRunes" and p: "HasPrefix s r"
    by (auto simp: leadingSpace_def find_Some_iff)
  from p have "length r \<le> length s"
    by (metis HasPrefix_def length_take min.cobounded1)
  with spaceRunes_nonempty [OF m] show ?thesis by simp
qed

lemma trailingSpace_Some: "trailingSpace s = Some r \<Longrightarrow> 0 < length r \<and> length r \<le> length s"
proof -
  assume a: "trailingSpace s = Some r"
  then have m: "r \<in> set spaceRunes" and p: "HasSuffix s r"
    by (auto simp: trailingSpace_def find_Some_iff)
  with spaceRunes_nonempty [OF m] show ?thesis by (simp add: HasSuffix_def)
qed

function TrimLeftSpace :: "string \<Rightarrow> string" where
  "TrimLeftSpace s =
     (case leadingSpace s of None \<Rightarrow> s | Some r \<Rightarrow> TrimLeftSpace (drop (length r) s))"
  by pat_completeness auto
termination
proof (relation "measure length")
  fix s r
  assume "leadingSpace s = Some r"
  from leadingSpace_Some [OF this]
  show "(drop (length r) s, s) \<in> measure length" by (cases r) auto
qed simp

function TrimRightSpace :: "string \<Rightarrow> string" where
  "TrimRightSpace s =
     (case trailingSpace s of None \<Rightarrow> s
      | Some r \<Rightarrow> TrimRightSpace (take (length s - length r) s))"
  by pat_completeness auto
termination
proof (relation "measure length")
  fix s r
  assume "trailingSpace s = Some r"
  from trailingSpace_Some [OF this]
  show "(take (length s - length r) s, s) \<in> measure length" by (cases r) auto
qed simp

declare TrimLeftSpace.simps [simp del] TrimRightSpace.simps [simp del]

definition TrimSpace :: "string \<Rightarrow> string" where
  "TrimSpace s = TrimRightSpace (TrimLeftSpace s)"

text \<open>\<open>strconv.Itoa\<close> and \<open>strconv.FormatInt(i, 10)\<close>: the decimal digits, with a minus
  sign for a negative number.\<close>

fun digitsOf :: "nat \<Rightarrow> string" where
  "digitsOf n =
     (if n < 10 then [''0123456789'' ! n]
      else digitsOf (n div 10) @ [''0123456789'' ! (n mod 10)])"

declare digitsOf.simps [simp del]

definition Itoa :: "int \<Rightarrow> string" where
  "Itoa i = (if i < 0 then CHR ''-'' # digitsOf (nat (- i)) else digitsOf (nat i))"

subsection \<open>Regular expressions\<close>

text \<open>
  The two patterns of primitives.go are anchored at both ends (in each alternative), so
  \<open>MatchString\<close> holds exactly when the whole string is in the language of the
  pattern.  Patterns are terms of \<open>rexp\<close>; matching takes derivatives byte by byte.
  \<open>\d\<close> is the class of the ASCII digits and \<open>\w\<close> the class of ASCII letters,
  digits and the underscore, as in Go's RE2 syntax.
\<close>

datatype rexp =
    RNone
  | REps
  | RClass "char list"
  | RSeq rexp rexp
  | RAlt rexp rexp
  | RStar rexp

definition ROpt :: "rexp \<Rightarrow> rexp" where
  "ROpt r = RAlt r REps"

definition RPlus :: "rexp \<Rightarrow> rexp" where
  "RPlus r = RSeq r (RStar r)"

fun nullable :: "rexp \<Rightarrow> bool" where
  "nullable RNone = False"
| "nullable REps = True"
| "nullable (RClass cs) = False"
| "nullable (RSeq r s) = (nullable r \<and> nullable s)"
| "nullable (RAlt r s) = (nullable r \<or> nullable s)"
| "nullable (RStar r) = True"

fun deriv :: "char \<Rightarrow> rexp \<Rightarrow> rexp" where
  "deriv c RNone = RNone"
| "deriv c REps = RNone"
| "deriv c (RClass cs) = (if c \<in> set cs then REps else RNone)"
| "deriv c (RSeq r s) =
     (if nullable r then RAlt (RSeq (deriv c r) s) (deriv c s) else RSeq (deriv c r) s)"
| "deriv c (RAlt r s) = RAlt (deriv c r) (deriv c s)"
| "deriv c (RStar r) = RSeq (deriv c r) (RStar r)"

definition MatchString :: "rexp \<Rightarrow> string \<Rightarrow> bool" where
  "MatchString r s = nullable (foldl (\<lambda>r c. deriv c r) r s)"

definition digitClass :: rexp where
  "digitClass = RClass ''0123456789''"

definition wordChars :: "char list" where
  "wordChars = ''0123456789ABCDEFGHIJKLMNOPQRSTUVWXYZ_abcdefghijklmnopqrstuvwxyz''"

section \<open>The value model, the options and the line writer\<close>

text \<open>
  A normalized value (the result of \<open>normalizeValue\<close>) is \<open>nil\<close>, a \<open>bool\<close>, a \<open>float64\<close>,
  a \<open>string\<close>, a \<open>[]interface{}\<close> or a \<open>map[string]interface{}\<close>.  A map is modelled as
  the list of its entries in some iteration order; the entries of a Go map have
  distinct keys (\<open>wf_value\<close> below).  The type \<open>'n\<close> stands for \<open>float64\<close>: the encoder
  only ever passes a number to \<open>formatNumber\<close>, which is a parameter \<open>fnum\<close> of the
  functions below (it is built from \<open>strconv.FormatInt\<close> and \<open>strconv.FormatFloat\<close> on
  IEEE-754 doubles, which this development does not model).
\<close>

datatype 'n val =
    VNull
  | VBool bool
  | VNumber 'n
  | VString string
  | VArray "'n val list"
  | VObject "(string \<times> 'n val) list"

type_synonym 'n obj = "(string \<times> 'n val) list"

text \<open>Reading a Go map: \<open>len(obj)\<close>, the keys, and \<open>obj[key]\<close>, which is \<open>nil\<close> for a key
  that is not in the map.\<close>

definition keysOf :: "'n obj \<Rightarrow> string list" where
  "keysOf obj = map fst obj"

definition hasKey :: "'n obj \<Rightarrow> string \<Rightarrow> bool" where
  "hasKey obj k = (map_of obj k \<noteq> None)"

definition lookup :: "'n obj \<Rightarrow> string \<Rightarrow> 'n val" where
  "lookup obj k = (case map_of obj k of None \<Rightarrow> VNull | Some v \<Rightarrow> v)"

text \<open>
  The entries of a Go map have distinct keys, at every level of a value: \<open>wf_value\<close>.
  The iteration order of a map is not fixed; in this model it is the order of the list
  of entries.  \<open>canon\<close> puts the entries of every object of a value in the order of their
  keys, so two values with the same \<open>canon\<close> are the same Go value listed in two
  iteration orders.
\<close>

fun wf_value :: "'n val \<Rightarrow> bool" where
  "wf_value (VArray xs) = (\<forall>x \<in> set xs. wf_value x)"
| "wf_value (VObject kvs) = (distinct (map fst kvs) \<and> (\<forall>kv \<in> set kvs. wf_value (snd kv)))"
| "wf_value _ = True"

primrec canon :: "'n val \<Rightarrow> 'n val" where
  "canon VNull = VNull"
| "canon (VBool b) = VBool b"
| "canon (VNumber n) = VNumber n"
| "canon (VString s) = VString s"
| "canon (VArray xs) = VArray (map canon xs)"
| "canon (VObject kvs) = VObject (sort_key fst (map (map_prod (\<lambda>k. k) canon) kvs))"

abbreviation canonObj :: "'n obj \<Rightarrow> 'n obj" where
  "canonObj obj \<equiv> sort_key fst (map (map_prod (\<lambda>k. k) canon) obj)"

text \<open>types.go.  The fields of \<open>headerOptions\<close> carry the prefix \<open>opt_\<close>, so that \<open>key\<close>,
  \<open>fields\<close> and \<open>delimiter\<close> stay free as names of variables.\<close>

record EncodeOptions =
  Indent :: int
  Delimiter :: string
  LengthMarker :: bool

datatype EncodeOption = WithIndent int | WithDelimiter string | WithLengthMarker

definition defaultOptions :: EncodeOptions where
  "defaultOptions = \<lparr>Indent = 2, Delimiter = DefaultDelimiter, LengthMarker = False\<rparr>"

fun applyOption :: "EncodeOption \<Rightarrow> EncodeOptions \<Rightarrow> EncodeOptions" where
  "applyOption (WithIndent n) opts = opts\<lparr>Indent := n\<rparr>"
| "applyOption (WithDelimiter d) opts = opts\<lparr>Delimiter := d\<rparr>"
| "applyOption WithLengthMarker opts = opts\<lparr>LengthMarker := True\<rparr>"

definition resolveOptions :: "EncodeOption list \<Rightarrow> EncodeOptions" where
  "resolveOptions opts = fold applyOption opts defaultOptions"

record headerOptions =
  opt_key :: string
  opt_fields :: "string list"
  opt_delimiter :: string
  opt_lengthMarker :: bool

text \<open>
  writer.go.  \<open>NewLineWriter\<close> calls \<open>strings.Repeat(" ", indentSize)\<close> with the \<open>int\<close> of
  the options.  \<open>strings.Repeat\<close> panics for a negative count (\<open>negative Repeat count\<close>).
  For a count of 0 or 1 it returns at once; for a larger count it allocates the bytes of
  the result, and the runtime panics (\<open>makeslice: len out of range\<close>) when these are more
  than \<open>maxAlloc\<close>, which is \<open>2 ^ 48\<close> on the 64-bit platforms (48 bits of heap addresses,
  as on linux/amd64).  An indent of \<open>math.MaxInt64\<close> is such a count.  In \<open>Push\<close> the count
  is the depth, which is never negative.  That the strings the encoder builds fit into
  the memory of the process is taken for granted: a process that is out of memory stops
  with a fatal error of the runtime, which is no panic.
\<close>

record LineWriter =
  lines :: "string list"
  indentationString :: string

datatype panic = NegativeRepeatCount | MakesliceLenOutOfRange

definition maxAlloc :: int where
  "maxAlloc = 2 ^ 48"

definition NewLineWriter :: "int \<Rightarrow> panic + LineWriter" where
  "NewLineWriter indentSize =
     (if indentSize < 0 then Inl NegativeRepeatCount
      else if maxAlloc < indentSize then Inl MakesliceLenOutOfRange
      else Inr \<lparr>lines = [], indentationString = Repeat '' '' (nat indentSize)\<rparr>)"

definition Push :: "LineWriter \<Rightarrow> nat \<Rightarrow> string \<Rightarrow> LineWriter" where
  "Push w depth content =
     w\<lparr>lines := lines w @ [Repeat (indentationString w) depth @ content]\<rparr>"

definition String :: "LineWriter \<Rightarrow> string" where
  "String w = Join (lines w) [CHR 0x0A]"



section \<open>primitives.go\<close>

definition escapeString :: "string \<Rightarrow> string" where
  "escapeString v =
     (let v1 = ReplaceAll v (CHR 0x5C) (Backslash @ Backslash);
          v2 = ReplaceAll v1 (CHR 0x22) (Backslash @ DoubleQuote);
          v3 = ReplaceAll v2 (CHR 0x0A) (Backslash @ ''n'');
          v4 = ReplaceAll v3 (CHR 0x0D) (Backslash @ ''r'');
          v5 = ReplaceAll v4 (CHR 0x09) (Backslash @ ''t'')
      in v5)"

definition numericPattern :: rexp where
  "numericPattern =
     RAlt
       (RSeq (ROpt (RClass ''-''))
         (RSeq (RPlus digitClass)
           (RSeq (ROpt (RSeq (RClass ''.'') (RPlus digitClass)))
                 (ROpt (RSeq (RClass ''eE'') (RSeq (ROpt (RClass ''+-'')) (RPlus digitClass)))))))
       (RSeq (RClass ''0'') (RPlus digitClass))"

definition isNumericLike :: "string \<Rightarrow> bool" where
  "isNumericLike v = MatchString numericPattern v"

definition isSafeUnquoted :: "string \<Rightarrow> string \<Rightarrow> bool" where
  "isSafeUnquoted v delimiter =
     (if v = [] then False
      else if TrimSpace v \<noteq> v then False
      else if v = TrueLiteral \<or> v = FalseLiteral \<or> v = NullLiteral then False
      else if isNumericLike v then False
      else if Contains v Colon then False
      else if Contains v DoubleQuote \<or> Contains v Backslash then False
      else if ContainsAny v ''[]{}'' then False
      else if ContainsAny v [CHR 0x0A, CHR 0x0D, CHR 0x09] then False
      else if Contains v delimiter then False
      else if HasPrefix v ListItemMarker then False
      else True)"

definition encodeStringLiteral :: "string \<Rightarrow> string \<Rightarrow> string" where
  "encodeStringLiteral v delimiter =
     (if isSafeUnquoted v delimiter then v
      else DoubleQuote @ escapeString v @ DoubleQuote)"

definition validKeyPattern :: rexp where
  "validKeyPattern =
     RSeq (RClass ''ABCDEFGHIJKLMNOPQRSTUVWXYZ_abcdefghijklmnopqrstuvwxyz'')
          (RStar (RClass (wordChars @ ''.'')))"

definition isValidUnquotedKey :: "string \<Rightarrow> bool" where
  "isValidUnquotedKey k = MatchString validKeyPattern k"

definition encodeKey :: "string \<Rightarrow> string" where
  "encodeKey k =
     (if isValidUnquotedKey k then k else DoubleQuote @ escapeString k @ DoubleQuote)"

definition encodePrimitive :: "('n \<Rightarrow> string) \<Rightarrow> 'n val \<Rightarrow> string \<Rightarrow> string" where
  "encodePrimitive fnum v delimiter =
     (case v of
        VNull \<Rightarrow> NullLiteral
      | VBool b \<Rightarrow> (if b then TrueLiteral else FalseLiteral)
      | VNumber f \<Rightarrow> fnum f
      | VString s \<Rightarrow> encodeStringLiteral s delimiter
      | _ \<Rightarrow> NullLiteral)"

definition joinEncodedValues :: "('n \<Rightarrow> string) \<Rightarrow> 'n val list \<Rightarrow> string \<Rightarrow> string" where
  "joinEncodedValues fnum values delimiter =
     Join (map (\<lambda>v. encodePrimitive fnum v delimiter) values) delimiter"

definition formatHeader :: "nat \<Rightarrow> headerOptions \<Rightarrow> string" where
  "formatHeader len options =
     (if opt_key options \<noteq> [] then encodeKey (opt_key options) else [])
     @ OpenBracket
     @ (if opt_lengthMarker options then ''#'' else [])
     @ Itoa (int len)
     @ (if opt_delimiter options \<noteq> DefaultDelimiter then opt_delimiter options else [])
     @ CloseBracket
     @ (if length (opt_fields options) > 0
        then OpenBrace @ Join (map encodeKey (opt_fields options)) (opt_delimiter options)
             @ CloseBrace
        else [])
     @ Colon"

definition formatInlineArray ::
  "('n \<Rightarrow> string) \<Rightarrow> 'n val list \<Rightarrow> string \<Rightarrow> string \<Rightarrow> bool \<Rightarrow> string" where
  "formatInlineArray fnum values delimiter prefix lengthMarker =
     (let header = formatHeader (length values)
            \<lparr>opt_key = prefix, opt_fields = [], opt_delimiter = delimiter,
             opt_lengthMarker = lengthMarker\<rparr>
      in if length values = 0 then header
         else header @ '' '' @ joinEncodedValues fnum values delimiter)"

section \<open>normalize.go: the type guards\<close>

text \<open>
  \<open>normalizeValue\<close> itself works by reflection on arbitrary Go values and is not modelled:
  the encoder is defined on normalized values.  In \<open>encodeArray\<close> the type assertion
  \<open>item.(map[string]interface{})\<close> is guarded by \<open>isArrayOfObjects\<close>, so it cannot panic;
  \<open>asObject\<close> is that assertion (lemma \<open>asObject_guarded\<close> below).
\<close>

definition isPrimitive :: "'n val \<Rightarrow> bool" where
  "isPrimitive v = (case v of VArray _ \<Rightarrow> False | VObject _ \<Rightarrow> False | _ \<Rightarrow> True)"

definition isArray :: "'n val \<Rightarrow> bool" where
  "isArray v = (case v of VArray _ \<Rightarrow> True | _ \<Rightarrow> False)"

definition isObject :: "'n val \<Rightarrow> bool" where
  "isObject v = (case v of VObject _ \<Rightarrow> True | _ \<Rightarrow> False)"

fun isArrayOfPrimitives :: "'n val list \<Rightarrow> bool" where
  "isArrayOfPrimitives [] = True"
| "isArrayOfPrimitives (item # arr) =
     (if \<not> isPrimitive item then False else isArrayOfPrimitives arr)"

fun isArrayOfArrays :: "'n val list \<Rightarrow> bool" where
  "isArrayOfArrays [] = True"
| "isArrayOfArrays (item # arr) = (if \<not> isArray item then False else isArrayOfArrays arr)"

fun isArrayOfObjects :: "'n val list \<Rightarrow> bool" where
  "isArrayOfObjects [] = True"
| "isArrayOfObjects (item # arr) = (if \<not> isObject item then False else isArrayOfObjects arr)"

fun allPrimitiveArrays :: "'n val list \<Rightarrow> bool" where
  "allPrimitiveArrays [] = True"
| "allPrimitiveArrays (item # arr) =
     (case item of
        VArray itemArr \<Rightarrow>
          (if \<not> isArrayOfPrimitives itemArr then False else allPrimitiveArrays arr)
      | _ \<Rightarrow> allPrimitiveArrays arr)"

definition asObject :: "'n val \<Rightarrow> 'n obj" where
  "asObject item = (case item of VObject m \<Rightarrow> m | _ \<Rightarrow> [])"

section \<open>encoders.go\<close>

text \<open>
  The functions take the line writer and return it with the pushed lines appended.  The
  depth is a natural number: it starts at 0 and is only ever increased.
  \<open>headerKeysPrimitive\<close> is the inner loop of \<open>isTabularArray\<close>.
\<close>

fun headerKeysPrimitive :: "'n obj \<Rightarrow> string list \<Rightarrow> bool" where
  "headerKeysPrimitive obj [] = True"
| "headerKeysPrimitive obj (k # header) =
     (if \<not> hasKey obj k then False
      else if \<not> isPrimitive (lookup obj k) then False
      else headerKeysPrimitive obj header)"

fun isTabularArray :: "'n obj list \<Rightarrow> string list \<Rightarrow> bool" where
  "isTabularArray [] header = True"
| "isTabularArray (obj # objects) header =
     (if length obj \<noteq> length header then False
      else if \<not> headerKeysPrimitive obj header then False
      else isTabularArray objects header)"

definition detectTabularHeader :: "'n obj list \<Rightarrow> string list option" where
  "detectTabularHeader objects =
     (case objects of
        [] \<Rightarrow> None
      | firstObj # _ \<Rightarrow>
          if length firstObj = 0 then None
          else let firstKeys = sort (keysOf firstObj)
               in if isTabularArray objects firstKeys then Some firstKeys else None)"

definition writeTabularRows ::
  "('n \<Rightarrow> string) \<Rightarrow> 'n obj list \<Rightarrow> string list \<Rightarrow> LineWriter \<Rightarrow> nat \<Rightarrow> EncodeOptions
   \<Rightarrow> LineWriter" where
  "writeTabularRows fnum objects header writer depth opts =
     fold (\<lambda>obj w. Push w depth (joinEncodedValues fnum (map (lookup obj) header) (Delimiter opts)))
       objects writer"

definition encodeArrayOfObjectsAsTabular ::
  "('n \<Rightarrow> string) \<Rightarrow> string \<Rightarrow> 'n obj list \<Rightarrow> string list \<Rightarrow> LineWriter \<Rightarrow> nat
   \<Rightarrow> EncodeOptions \<Rightarrow> LineWriter" where
  "encodeArrayOfObjectsAsTabular fnum prefix objects header writer depth opts =
     (let headerStr = formatHeader (length objects)
            \<lparr>opt_key = prefix, opt_fields = header, opt_delimiter = Delimiter opts,
             opt_lengthMarker = LengthMarker opts\<rparr>
      in writeTabularRows fnum objects header (Push writer depth headerStr) (depth + 1) opts)"

definition encodeInlinePrimitiveArray ::
  "('n \<Rightarrow> string) \<Rightarrow> string \<Rightarrow> 'n val list \<Rightarrow> LineWriter \<Rightarrow> nat \<Rightarrow> EncodeOptions
   \<Rightarrow> LineWriter" where
  "encodeInlinePrimitiveArray fnum prefix values writer depth opts =
     Push writer depth
       (formatInlineArray fnum values (Delimiter opts) prefix (LengthMarker opts))"

definition encodeArrayOfArraysAsListItems ::
  "('n \<Rightarrow> string) \<Rightarrow> string \<Rightarrow> 'n val list \<Rightarrow> LineWriter \<Rightarrow> nat \<Rightarrow> EncodeOptions
   \<Rightarrow> LineWriter" where
  "encodeArrayOfArraysAsListItems fnum prefix arrays writer depth opts =
     (let header = formatHeader (length arrays)
            \<lparr>opt_key = prefix, opt_fields = [], opt_delimiter = Delimiter opts,
             opt_lengthMarker = LengthMarker opts\<rparr>
      in fold (\<lambda>item w.
                 case item of
                   VArray arr \<Rightarrow>
                     if isArrayOfPrimitives arr
                     then Push w (depth + 1)
                            (ListItemPrefix
                             @ formatInlineArray fnum arr (Delimiter opts) [] (LengthMarker opts))
                     else w
                 | _ \<Rightarrow> w)
           arrays (Push writer depth header))"

text \<open>The measure of the mutual recursion: a call descends into a value of the object or
  array at hand.\<close>

lemma size_lookup:
  "k \<in> set (keysOf obj) \<Longrightarrow> size (lookup obj k) < size (VObject obj)"
  by (induction obj) (fastforce simp: lookup_def keysOf_def split: option.splits)+

lemma size_lookup_hd:
  assumes "keysOf obj \<noteq> []"
  shows "size (lookup obj (hd (sort (keysOf obj)))) < size (VObject obj)"
proof -
  from assms have "sort (keysOf obj) \<noteq> []" by (metis length_0_conv length_sort)
  then have "hd (sort (keysOf obj)) \<in> set (sort (keysOf obj))" by (rule hd_in_set)
  then have "hd (sort (keysOf obj)) \<in> set (keysOf obj)" by simp
  then show ?thesis by (rule size_lookup)
qed

lemma size_lookup_tl:
  assumes "k \<in> set (tl (sort (keysOf obj)))"
  shows "size (lookup obj k) < size (VObject obj)"
proof -
  from assms have "k \<in> set (sort (keysOf obj))" by (metis list.set_sel(2) tl_Nil)
  then have "k \<in> set (keysOf obj)" by simp
  then show ?thesis by (rule size_lookup)
qed

lemma size_elem: "v \<in> set arr \<Longrightarrow> size v < size (VArray arr)"
  by (induction arr) auto

lemma term_object_key:
  "k \<in> set (keysOf obj) \<Longrightarrow>
   3 * size (lookup obj k) < Suc (Suc (3 * size_list (size_prod (\<lambda>x. 0) size) obj))"
  using size_lookup [of k obj] by simp

lemma term_array_item:
  "VObject itemObj \<in> set items \<Longrightarrow>
   Suc (Suc (3 * size_list (size_prod (\<lambda>x. 0) size) itemObj)) < 3 * size_list size items"
  using size_elem [of "VObject itemObj" items] by simp

lemma term_first_array_item:
  "VArray arr = lookup obj (hd (sort (keysOf obj))) \<Longrightarrow> keysOf obj \<noteq> [] \<Longrightarrow>
   VObject itemObj \<in> set arr \<Longrightarrow>
   size_list (size_prod (\<lambda>x. 0) size) itemObj < size_list (size_prod (\<lambda>x. 0) size) obj"
  using size_lookup_hd [of obj] size_elem [of "VObject itemObj" arr] by simp

lemma term_first_object:
  assumes "VObject nestedObj = lookup obj (hd (sort (keysOf obj)))" and "keysOf obj \<noteq> []"
  shows "3 * size_list (size_prod (\<lambda>x. 0) size) nestedObj
     < Suc (3 * size_list (size_prod (\<lambda>x. 0) size) obj)"
proof -
  from size_lookup_hd [OF assms(2)] have "size (VObject nestedObj) < size (VObject obj)"
    by (simp only: assms(1))
  then show ?thesis by simp
qed

lemma term_rest_key:
  "k \<in> set (tl (sort (keysOf obj))) \<Longrightarrow>
   3 * size (lookup obj k) < 3 + 3 * size_list (size_prod (\<lambda>x. 0) size) obj"
  using size_lookup_tl [of k obj] by simp

function (sequential)
  encodeObject ::
    "('n \<Rightarrow> string) \<Rightarrow> 'n obj \<Rightarrow> LineWriter \<Rightarrow> nat \<Rightarrow> EncodeOptions \<Rightarrow> LineWriter"
  and encodeKeyValuePair ::
    "('n \<Rightarrow> string) \<Rightarrow> string \<Rightarrow> 'n val \<Rightarrow> LineWriter \<Rightarrow> nat \<Rightarrow> EncodeOptions \<Rightarrow> LineWriter"
  and encodeArray ::
    "('n \<Rightarrow> string) \<Rightarrow> string \<Rightarrow> 'n val list \<Rightarrow> LineWriter \<Rightarrow> nat \<Rightarrow> EncodeOptions
     \<Rightarrow> LineWriter"
  and encodeMixedArrayAsListItems ::
    "('n \<Rightarrow> string) \<Rightarrow> string \<Rightarrow> 'n val list \<Rightarrow> LineWriter \<Rightarrow> nat \<Rightarrow> EncodeOptions
     \<Rightarrow> LineWriter"
  and encodeObjectAsListItem ::
    "('n \<Rightarrow> string) \<Rightarrow> 'n obj \<Rightarrow> LineWriter \<Rightarrow> nat \<Rightarrow> EncodeOptions \<Rightarrow> LineWriter"
where
  "encodeObject fnum obj writer depth opts =
     fold (\<lambda>k w. encodeKeyValuePair fnum k (lookup obj k) w depth opts)
       (sort (keysOf obj)) writer"
| "encodeKeyValuePair fnum k v writer depth opts =
     (let encodedKey = encodeKey k
      in if isPrimitive v
         then Push writer depth
                (encodedKey @ '': '' @ encodePrimitive fnum v (Delimiter opts))
         else case v of
                VArray arr \<Rightarrow> encodeArray fnum k arr writer depth opts
              | VObject obj \<Rightarrow>
                  if length (keysOf obj) = 0 then Push writer depth (encodedKey @ Colon)
                  else encodeObject fnum obj (Push writer depth (encodedKey @ Colon))
                         (depth + 1) opts
              | _ \<Rightarrow> writer)"
| "encodeArray fnum k arr writer depth opts =
     (if length arr = 0
      then Push writer depth
             (formatHeader 0
                \<lparr>opt_key = k, opt_fields = [], opt_delimiter = Delimiter opts,
                 opt_lengthMarker = LengthMarker opts\<rparr>)
      else if isArrayOfPrimitives arr
      then encodeInlinePrimitiveArray fnum k arr writer depth opts
      else if isArrayOfArrays arr \<and> allPrimitiveArrays arr
      then encodeArrayOfArraysAsListItems fnum k arr writer depth opts
      else if isArrayOfObjects arr
      then (let objects = map asObject arr
            in case detectTabularHeader objects of
                 Some header \<Rightarrow>
                   encodeArrayOfObjectsAsTabular fnum k objects header writer depth opts
               | None \<Rightarrow> encodeMixedArrayAsListItems fnum k arr writer depth opts)
      else encodeMixedArrayAsListItems fnum k arr writer depth opts)"
| "encodeMixedArrayAsListItems fnum prefix items writer depth opts =
     (let header = formatHeader (length items)
            \<lparr>opt_key = prefix, opt_fields = [], opt_delimiter = Delimiter opts,
             opt_lengthMarker = LengthMarker opts\<rparr>
      in fold (\<lambda>item w.
                 if isPrimitive item
                 then Push w (depth + 1)
                        (ListItemPrefix @ encodePrimitive fnum item (Delimiter opts))
                 else case item of
                        VArray arr \<Rightarrow>
                          if isArrayOfPrimitives arr
                          then Push w (depth + 1)
                                 (ListItemPrefix
                                  @ formatInlineArray fnum arr (Delimiter opts) []
                                      (LengthMarker opts))
                          else w
                      | VObject obj \<Rightarrow> encodeObjectAsListItem fnum obj w (depth + 1) opts
                      | _ \<Rightarrow> w)
           items (Push writer depth header))"
| "encodeObjectAsListItem fnum obj writer depth opts =
     (let keys = sort (keysOf obj)
      in if length keys = 0 then Push writer depth ListItemMarker
         else
           let firstKey = hd keys;
               encodedKey = encodeKey firstKey;
               firstValue = lookup obj firstKey;
               w1 =
                 (if isPrimitive firstValue
                  then Push writer depth
                         (ListItemPrefix @ encodedKey @ '': ''
                          @ encodePrimitive fnum firstValue (Delimiter opts))
                  else case firstValue of
                    VArray arr \<Rightarrow>
                      if isArrayOfPrimitives arr
                      then Push writer depth
                             (ListItemPrefix
                              @ formatInlineArray fnum arr (Delimiter opts) firstKey
                                  (LengthMarker opts))
                      else if isArrayOfObjects arr
                      then (let objects = map asObject arr
                            in case detectTabularHeader objects of
                                 Some header \<Rightarrow>
                                   writeTabularRows fnum objects header
                                     (Push writer depth
                                        (ListItemPrefix
                                         @ formatHeader (length arr)
                                             \<lparr>opt_key = firstKey, opt_fields = header,
                                              opt_delimiter = Delimiter opts,
                                              opt_lengthMarker = LengthMarker opts\<rparr>))
                                     (depth + 1) opts
                               | None \<Rightarrow>
                                   fold (\<lambda>item w.
                                           case item of
                                             VObject itemObj \<Rightarrow>
                                               encodeObjectAsListItem fnum itemObj w (depth + 1)
                                                 opts
                                           | _ \<Rightarrow> w)
                                     arr
                                     (Push writer depth
                                        (ListItemPrefix @ encodedKey @ ''[''
                                         @ Itoa (int (length arr)) @ '']:'')))
                      else
                        fold (\<lambda>item w.
                                if isPrimitive item
                                then Push w (depth + 1)
                                       (ListItemPrefix
                                        @ encodePrimitive fnum item (Delimiter opts))
                                else case item of
                                  VArray itemArr \<Rightarrow>
                                    if isArrayOfPrimitives itemArr
                                    then Push w (depth + 1)
                                           (ListItemPrefix
                                            @ formatInlineArray fnum itemArr (Delimiter opts) []
                                                (LengthMarker opts))
                                    else w
                                | VObject itemObj \<Rightarrow>
                                    encodeObjectAsListItem fnum itemObj w (depth + 1) opts
                                | _ \<Rightarrow> w)
                          arr
                          (Push writer depth
                             (ListItemPrefix @ encodedKey @ ''[''
                              @ Itoa (int (length arr)) @ '']:''))
                  | VObject nestedObj \<Rightarrow>
                      if length (keysOf nestedObj) = 0
                      then Push writer depth (ListItemPrefix @ encodedKey @ Colon)
                      else encodeObject fnum nestedObj
                             (Push writer depth (ListItemPrefix @ encodedKey @ Colon))
                             (depth + 2) opts
                  | _ \<Rightarrow> writer)
           in fold (\<lambda>k w. encodeKeyValuePair fnum k (lookup obj k) w (depth + 1) opts)
                (tl keys) w1)"
  by pat_completeness auto
termination
  apply (relation "measure (\<lambda>x. case x of
      Inl (Inl (fnum, obj, w, d, opts)) \<Rightarrow> 3 * size (VObject obj) + 1
    | Inl (Inr (fnum, k, v, w, d, opts)) \<Rightarrow> 3 * size v + 2
    | Inr (Inl (fnum, k, arr, w, d, opts)) \<Rightarrow> 3 * size (VArray arr) + 1
    | Inr (Inr (Inl (fnum, k, arr, w, d, opts))) \<Rightarrow> 3 * size (VArray arr)
    | Inr (Inr (Inr (fnum, obj, w, d, opts))) \<Rightarrow> 3 * size (VObject obj) + 2)")
           apply simp_all
       apply (erule term_object_key)
      apply (erule term_array_item)
     apply (erule (2) term_first_array_item)
    apply (erule (2) term_first_array_item)
   apply (erule (1) term_first_object)
  apply (erule term_rest_key)
  done

declare encodeObject.simps [simp del] encodeKeyValuePair.simps [simp del]
  encodeArray.simps [simp del] encodeMixedArrayAsListItems.simps [simp del]
  encodeObjectAsListItem.simps [simp del]

section \<open>toon.go\<close>

text \<open>\<open>Encode\<close> on the normalized input.  Its result is the pair of the text and the
  error, which is always \<open>nil\<close> (\<open>None\<close>); a panic is \<open>Inl\<close>.\<close>

definition encodeValue :: "('n \<Rightarrow> string) \<Rightarrow> 'n val \<Rightarrow> EncodeOptions \<Rightarrow> panic + string" where
  "encodeValue fnum v opts =
     (if isPrimitive v then Inr (encodePrimitive fnum v (Delimiter opts))
      else case NewLineWriter (Indent opts) of
             Inl p \<Rightarrow> Inl p
           | Inr writer \<Rightarrow>
               Inr (String
                 (case v of
                    VArray arr \<Rightarrow> encodeArray fnum [] arr writer 0 opts
                  | VObject obj \<Rightarrow> encodeObject fnum obj writer 0 opts
                  | _ \<Rightarrow> writer)))"

datatype error = Error string

definition Encode ::
  "('n \<Rightarrow> string) \<Rightarrow> 'n val \<Rightarrow> EncodeOption list \<Rightarrow> panic + (string \<times> error option)" where
  "Encode fnum normalized opts =
     (let options = resolveOptions opts
      in case encodeValue fnum normalized options of
           Inl p \<Rightarrow> Inl p
         | Inr result \<Rightarrow> Inr (result, None))"

section \<open>Definitions that follow the words of the specification\<close>

text \<open>
  The specification speaks of an unescape rule without giving one, and the program has
  no decoder.  \<open>unescape\<close> is the rule that corresponds to \<open>escapeString\<close>: a backslash
  and the byte after it stand for one byte (backslash, double quote, newline, carriage
  return or tab); a backslash before any other byte, or at the end, is malformed.
  \<open>escapeByte\<close> is what the five replacements of \<open>escapeString\<close> do to one byte.
\<close>

definition escapeByte :: "char \<Rightarrow> string" where
  "escapeByte c =
     (if c = CHR 0x5C then [CHR 0x5C, CHR 0x5C]
      else if c = CHR 0x22 then [CHR 0x5C, CHR 0x22]
      else if c = CHR 0x0A then [CHR 0x5C, CHR ''n'']
      else if c = CHR 0x0D then [CHR 0x5C, CHR ''r'']
      else if c = CHR 0x09 then [CHR 0x5C, CHR ''t'']
      else [c])"

definition unescapeByte :: "char \<Rightarrow> char option" where
  "unescapeByte e =
     (if e = CHR 0x5C then Some (CHR 0x5C)
      else if e = CHR 0x22 then Some (CHR 0x22)
      else if e = CHR ''n'' then Some (CHR 0x0A)
      else if e = CHR ''r'' then Some (CHR 0x0D)
      else if e = CHR ''t'' then Some (CHR 0x09)
      else None)"

fun unescape :: "string \<Rightarrow> string option" where
  "unescape [] = Some []"
| "unescape [c] = (if c = CHR 0x5C then None else Some [c])"
| "unescape (c # e # s) =
     (if c = CHR 0x5C
      then (case unescapeByte e of
              None \<Rightarrow> None
            | Some x \<Rightarrow> map_option ((#) x) (unescape s))
      else map_option ((#) c) (unescape (e # s)))"

text \<open>
  The header as the specification words it: the encoded key, the bracket with the length,
  and the field names themselves joined by the delimiter.
\<close>

definition headerAsClaimed :: "nat \<Rightarrow> headerOptions \<Rightarrow> string" where
  "headerAsClaimed n options =
     (if opt_key options \<noteq> [] then encodeKey (opt_key options) else [])
     @ ''[''
     @ (if opt_lengthMarker options then ''#'' else [])
     @ Itoa (int n)
     @ (if opt_delimiter options \<noteq> '','' then opt_delimiter options else [])
     @ '']''
     @ (if opt_fields options \<noteq> []
        then ''{'' @ Join (opt_fields options) (opt_delimiter options) @ ''}''
        else [])
     @ '':''"

text \<open>
  Tabular eligibility as the specification words it: every object has exactly the key
  set of the first object, and every field value is a scalar.  \<open>tabularLines\<close> is the
  text the specification promises for such an array: a header line with the sorted keys
  of the first object as field list, then one row per object, the encoded field values
  joined by the delimiter in the order of the field list.
\<close>

definition sameKeysAllScalar :: "'n obj list \<Rightarrow> bool" where
  "sameKeysAllScalar objects =
     (case objects of
        [] \<Rightarrow> True
      | firstObj # _ \<Rightarrow>
          list_all (\<lambda>obj. set (keysOf obj) = set (keysOf firstObj)
                            \<and> list_all (\<lambda>(k, v). isPrimitive v) obj) objects)"

definition tabularLines ::
  "('n \<Rightarrow> string) \<Rightarrow> string \<Rightarrow> 'n obj list \<Rightarrow> string \<Rightarrow> nat \<Rightarrow> EncodeOptions \<Rightarrow> string list"
  where
  "tabularLines fnum k objects ind depth opts =
     (let fields = (case objects of [] \<Rightarrow> [] | firstObj # _ \<Rightarrow> sort (keysOf firstObj))
      in (Repeat ind depth
            @ formatHeader (length objects)
                \<lparr>opt_key = k, opt_fields = fields, opt_delimiter = Delimiter opts,
                 opt_lengthMarker = LengthMarker opts\<rparr>)
         # map (\<lambda>obj. Repeat ind (depth + 1)
                   @ Join (map (\<lambda>f. encodePrimitive fnum (lookup obj f) (Delimiter opts)) fields)
                       (Delimiter opts))
             objects)"

section \<open>Quoting and escaping\<close>

lemma ReplaceAll_Nil: "ReplaceAll [] old new = []"
  by (simp add: ReplaceAll_def)

lemma ReplaceAll_Cons:
  "ReplaceAll (c # s) old new = (if c = old then new else [c]) @ ReplaceAll s old new"
  by (simp add: ReplaceAll_def)

lemma ReplaceAll_append:
  "ReplaceAll (s @ t) old new = ReplaceAll s old new @ ReplaceAll t old new"
  by (simp add: ReplaceAll_def)

lemma escapeString_Nil: "escapeString [] = []"
  by (simp add: escapeString_def ReplaceAll_Nil)

lemma escapeString_Cons: "escapeString (c # s) = escapeByte c @ escapeString s"
  by (simp add: escapeString_def escapeByte_def Let_def ReplaceAll_Cons ReplaceAll_append
      ReplaceAll_Nil)

lemma escapeString_concat: "escapeString s = concat (map escapeByte s)"
  by (induction s) (simp_all add: escapeString_Nil escapeString_Cons)

lemma unescape_escapeByte:
  "unescape (escapeByte c @ t) = map_option ((#) c) (unescape t)"
  by (cases t) (simp_all add: escapeByte_def unescapeByte_def)

lemma unescape_escapeString: "unescape (escapeString s) = Some s"
  by (induction s) (simp_all add: escapeString_Nil escapeString_Cons unescape_escapeByte)

lemma encodeStringLiteral_quoted_neq:
  "DoubleQuote @ escapeString s @ DoubleQuote \<noteq> s"
proof -
  have "length s \<le> length (escapeString s)"
    by (induction s) (simp_all add: escapeString_Nil escapeString_Cons escapeByte_def)
  then have "length (DoubleQuote @ escapeString s @ DoubleQuote) \<noteq> length s"
    by simp
  then show ?thesis by metis
qed

lemma safe_hello: "isSafeUnquoted ''hello world'' '',''"
  by code_simp

lemma unsafe_comma: "\<not> isSafeUnquoted ''hello, world'' '',''"
  by code_simp

text \<open>
  Claim C2.  For every string \<open>s\<close> and delimiter \<open>d\<close> the scalar encoder returns \<open>s\<close>
  itself (unquoted) exactly when \<open>isSafeUnquoted s d\<close> holds, and \<open>isSafeUnquoted s d\<close> is
  false exactly when \<open>s\<close> is empty, or trimming white space changes it, or it is one of
  \<open>true\<close>, \<open>false\<close>, \<open>null\<close>, or it matches the numeric pattern, or it contains a colon, a
  double quote, a backslash, a bracket, a brace, a newline, a carriage return, a tab or
  the delimiter, or it starts with a hyphen.
\<close>

theorem encodeStringLiteral_unquoted_iff_safe:
  "(encodeStringLiteral s d = s) = isSafeUnquoted s d \<and>
   isSafeUnquoted s d =
     (\<not> (s = [] \<or> TrimSpace s \<noteq> s
         \<or> s = ''true'' \<or> s = ''false'' \<or> s = ''null''
         \<or> isNumericLike s
         \<or> Contains s '':''
         \<or> Contains s [CHR 0x22] \<or> Contains s [CHR 0x5C]
         \<or> ContainsAny s ''[]{}''
         \<or> ContainsAny s [CHR 0x0A, CHR 0x0D, CHR 0x09]
         \<or> Contains s d
         \<or> HasPrefix s ''-''))"
proof
  show "(encodeStringLiteral s d = s) = isSafeUnquoted s d"
    using encodeStringLiteral_quoted_neq [of s]
    by (simp add: encodeStringLiteral_def)
next
  show "isSafeUnquoted s d =
     (\<not> (s = [] \<or> TrimSpace s \<noteq> s
         \<or> s = ''true'' \<or> s = ''false'' \<or> s = ''null''
         \<or> isNumericLike s
         \<or> Contains s '':''
         \<or> Contains s [CHR 0x22] \<or> Contains s [CHR 0x5C]
         \<or> ContainsAny s ''[]{}''
         \<or> ContainsAny s [CHR 0x0A, CHR 0x0D, CHR 0x09]
         \<or> Contains s d
         \<or> HasPrefix s ''-''))"
    unfolding isSafeUnquoted_def by (simp only: if_bool_eq_conj) blast
qed

theorem encodeStringLiteral_unquoted_iff_safe_witness:
  "encodeStringLiteral ''hello world'' '','' = ''hello world'' \<and>
   encodeStringLiteral ''hello, world'' '','' \<noteq> ''hello, world''"
proof
  from encodeStringLiteral_unquoted_iff_safe [of "''hello world''" "'',''"]
  have "(encodeStringLiteral ''hello world'' '','' = ''hello world'')
          = isSafeUnquoted ''hello world'' '',''"
    by (rule conjunct1)
  then show "encodeStringLiteral ''hello world'' '','' = ''hello world''"
    using safe_hello by (rule iffD2)
next
  from encodeStringLiteral_unquoted_iff_safe [of "''hello, world''" "'',''"]
  have "(encodeStringLiteral ''hello, world'' '','' = ''hello, world'')
          = isSafeUnquoted ''hello, world'' '',''"
    by (rule conjunct1)
  with unsafe_comma show "encodeStringLiteral ''hello, world'' '','' \<noteq> ''hello, world''"
    by blast
qed

text \<open>
  Claim C8.  A string that is not safe unquoted is emitted as a double quote, the
  escaped string and a double quote; the escaped string is the result of the five
  replacements in their order (backslash, double quote, newline, carriage return, tab);
  and unescaping the escaped string gives the string back.
\<close>

theorem escapeString_quoted_roundtrip:
  assumes "\<not> isSafeUnquoted s d"
  shows "encodeStringLiteral s d = [CHR 0x22] @ escapeString s @ [CHR 0x22]
         \<and> escapeString s =
             ReplaceAll (ReplaceAll (ReplaceAll (ReplaceAll (ReplaceAll s
               (CHR 0x5C) [CHR 0x5C, CHR 0x5C])
               (CHR 0x22) [CHR 0x5C, CHR 0x22])
               (CHR 0x0A) [CHR 0x5C, CHR ''n''])
               (CHR 0x0D) [CHR 0x5C, CHR ''r''])
               (CHR 0x09) [CHR 0x5C, CHR ''t'']
         \<and> unescape (escapeString s) = Some s"
  using assms
  by (simp add: encodeStringLiteral_def unescape_escapeString) (simp add: escapeString_def)

theorem escapeString_quoted_roundtrip_witness:
  "\<not> isSafeUnquoted ''hello, world'' '',''
   \<and> encodeStringLiteral ''hello, world'' '','' = [CHR 0x22] @ ''hello, world'' @ [CHR 0x22]
   \<and> unescape (escapeString ''hello, world'') = Some ''hello, world''"
proof -
  have e: "escapeString ''hello, world'' = ''hello, world''" by code_simp
  from escapeString_quoted_roundtrip [OF unsafe_comma]
  have "encodeStringLiteral ''hello, world'' '','' 
          = [CHR 0x22] @ escapeString ''hello, world'' @ [CHR 0x22]"
   and "unescape (escapeString ''hello, world'') = Some ''hello, world''"
    by blast+
  with unsafe_comma e show ?thesis by simp
qed

section \<open>The writer and the top-level call\<close>





lemma isPrimitive_simps [simp]:
  "isPrimitive VNull" "isPrimitive (VBool b)" "isPrimitive (VNumber n)"
  "isPrimitive (VString s)" "\<not> isPrimitive (VArray arr)" "\<not> isPrimitive (VObject obj)"
  by (simp_all add: isPrimitive_def)





lemma encodeArray_primitives:
  assumes "arr \<noteq> []" "isArrayOfPrimitives arr"
  shows "encodeArray fnum k arr w depth opts =
    Push w depth (formatHeader (length arr)
            \<lparr>opt_key = k, opt_fields = [], opt_delimiter = Delimiter opts,
             opt_lengthMarker = LengthMarker opts\<rparr> @ '' '' @
          Join (map (\<lambda>v. encodePrimitive fnum v (Delimiter opts)) arr) (Delimiter opts))"
  using assms
  by (simp add: encodeArray.simps encodeInlinePrimitiveArray_def formatInlineArray_def
      joinEncodedValues_def)









section \<open>The header\<close>

lemma Itoa_1: "Itoa 1 = ''1''" by code_simp

lemma Itoa_3: "Itoa 3 = ''3''" by code_simp

lemma encodeKey_a_b: "encodeKey ''a b'' = [CHR 0x22] @ ''a b'' @ [CHR 0x22]" by code_simp

lemma encodeKey_tags: "encodeKey ''tags'' = ''tags''" by code_simp

text \<open>
  Claim C5, as stated, fails for a field name that is not a valid unquoted key:
  \<open>formatHeader\<close> encodes every field name with \<open>encodeKey\<close>, so the field \<open>a b\<close> stands
  quoted in the header.
\<close>

theorem formatHeader_fields_counterexample:
  "formatHeader 1 \<lparr>opt_key = [], opt_fields = [''a b''], opt_delimiter = '','',
                   opt_lengthMarker = False\<rparr>
     = ''[1]{'' @ [CHR 0x22] @ ''a b'' @ [CHR 0x22] @ ''}:''
   \<and> headerAsClaimed 1 \<lparr>opt_key = [], opt_fields = [''a b''], opt_delimiter = '','',
                   opt_lengthMarker = False\<rparr>
     = ''[1]{a b}:''
   \<and> formatHeader 1 \<lparr>opt_key = [], opt_fields = [''a b''], opt_delimiter = '','',
                   opt_lengthMarker = False\<rparr>
     \<noteq> headerAsClaimed 1 \<lparr>opt_key = [], opt_fields = [''a b''], opt_delimiter = '','',
                   opt_lengthMarker = False\<rparr>"
  by (simp add: formatHeader_def headerAsClaimed_def Itoa_1 encodeKey_a_b)

text \<open>
  Claim C5, amended.  The header is the encoded key (if there is one), an opening
  bracket, \<open>#\<close> exactly when the length marker is on, the length, the delimiter exactly
  when it is not the comma, a closing bracket, then, exactly when the field list is not
  empty, the field names, each encoded as a key (quoted and escaped unless it is a valid
  unquoted key), joined by the delimiter in braces, and a colon.  Where every field name
  is a valid unquoted key this is the header of the specification.  The object with the
  key \<open>tags\<close> and the array of \<open>a\<close>, \<open>b\<close>, \<open>c\<close> encodes with the tab delimiter to
  \<open>tags[3\<close>, a tab, \<open>]: a\<close>, a tab, \<open>b\<close>, a tab, \<open>c\<close>.
\<close>

theorem formatHeader_grammar:
  "formatHeader n \<lparr>opt_key = k, opt_fields = fs, opt_delimiter = d, opt_lengthMarker = m\<rparr>
     = (if k \<noteq> [] then encodeKey k else [])
       @ ''['' @ (if m then ''#'' else []) @ Itoa (int n)
       @ (if d \<noteq> '','' then d else []) @ '']''
       @ (if fs \<noteq> [] then ''{'' @ Join (map encodeKey fs) d @ ''}'' else [])
       @ '':''
   \<and> (\<forall>o' :: headerOptions. (\<forall>f \<in> set (opt_fields o'). encodeKey f = f)
          \<longrightarrow> formatHeader n o' = headerAsClaimed n o')
   \<and> Encode fnum (VObject [(''tags'', VArray [VString ''a'', VString ''b'', VString ''c''])])
        [WithDelimiter [CHR 0x09]]
       = Inr (''tags[3'' @ [CHR 0x09] @ '']: a'' @ [CHR 0x09] @ ''b'' @ [CHR 0x09] @ ''c'', None)"
proof (intro conjI allI impI)
  show "formatHeader n \<lparr>opt_key = k, opt_fields = fs, opt_delimiter = d, opt_lengthMarker = m\<rparr>
     = (if k \<noteq> [] then encodeKey k else [])
       @ ''['' @ (if m then ''#'' else []) @ Itoa (int n)
       @ (if d \<noteq> '','' then d else []) @ '']''
       @ (if fs \<noteq> [] then ''{'' @ Join (map encodeKey fs) d @ ''}'' else [])
       @ '':''"
    by (simp add: formatHeader_def)
next
  fix o' :: headerOptions assume "\<forall>f \<in> set (opt_fields o'). encodeKey f = f"
  then have "map encodeKey (opt_fields o') = opt_fields o'" by (simp add: map_idI)
  then show "formatHeader n o' = headerAsClaimed n o'"
    by (simp add: formatHeader_def headerAsClaimed_def)
next
  have sa: "encodeStringLiteral ''a'' [CHR 0x09] = ''a''" by code_simp
  have sb: "encodeStringLiteral ''b'' [CHR 0x09] = ''b''" by code_simp
  have sc: "encodeStringLiteral ''c'' [CHR 0x09] = ''c''" by code_simp
  show "Encode fnum (VObject [(''tags'', VArray [VString ''a'', VString ''b'', VString ''c''])])
        [WithDelimiter [CHR 0x09]]
       = Inr (''tags[3'' @ [CHR 0x09] @ '']: a'' @ [CHR 0x09] @ ''b'' @ [CHR 0x09] @ ''c'', None)"
    by (simp add: Encode_def encodeValue_def resolveOptions_def defaultOptions_def
        NewLineWriter_def maxAlloc_def encodeObject.simps keysOf_def lookup_def
        encodeKeyValuePair.simps
        encodeArray_primitives formatHeader_def encodeKey_tags Itoa_3 encodePrimitive_def
        sa sb sc String_def Push_def Repeat_def)
qed

theorem formatHeader_grammar_witness:
  "formatHeader 3 \<lparr>opt_key = ''tags'', opt_fields = [''id'', ''name''], opt_delimiter = ''|'',
                   opt_lengthMarker = True\<rparr> = ''tags[#3|]{id|name}:''"
proof -
  have k: "encodeKey ''id'' = ''id''" "encodeKey ''name'' = ''name''" by code_simp+
  from formatHeader_grammar [of 3 "''tags''" "[''id'', ''name'']" "''|''" True, THEN conjunct1]
  show ?thesis by (simp add: k encodeKey_tags Itoa_3)
qed

section \<open>Tabular arrays\<close>

text \<open>
  The entries of a Go map have distinct keys; for such objects the test of
  \<open>detectTabularHeader\<close> (the same number of entries as the header, every header key
  present with a scalar value) says that the object has exactly the keys of the first
  object and only scalar values.
\<close>

lemma asObject_VObject [simp]: "asObject (VObject m) = m"
  by (simp add: asObject_def)

lemma asObject_guarded: "isArrayOfObjects arr \<Longrightarrow> map VObject (map asObject arr) = arr"
  by (induction arr) (auto simp: isObject_def split: val.splits if_splits)

lemma isArrayOfObjects_map_VObject [simp]: "isArrayOfObjects (map VObject objects)"
  by (induction objects) (simp_all add: isObject_def)

lemma headerKeysPrimitive_iff:
  "headerKeysPrimitive obj header
     = (\<forall>k \<in> set header. hasKey obj k \<and> isPrimitive (lookup obj k))"
  by (induction header) auto

lemma isTabularArray_iff:
  "isTabularArray objects header
     = (\<forall>obj \<in> set objects. length obj = length header \<and> headerKeysPrimitive obj header)"
  by (induction objects) auto

lemma hasKey_iff: "hasKey obj k = (k \<in> set (keysOf obj))"
  by (simp add: hasKey_def keysOf_def map_of_eq_None_iff)

lemma lookup_entry:
  "distinct (keysOf obj) \<Longrightarrow> (k, v) \<in> set obj \<Longrightarrow> lookup obj k = v"
  by (simp add: lookup_def keysOf_def)

lemma lookup_in_values:
  "k \<in> set (keysOf obj) \<Longrightarrow> (k, lookup obj k) \<in> set obj"
proof -
  assume "k \<in> set (keysOf obj)"
  then obtain v where "map_of obj k = Some v"
    by (metis hasKey_def hasKey_iff not_Some_eq)
  then show ?thesis by (simp add: lookup_def map_of_SomeD)
qed

lemma tabular_object_iff:
  assumes d: "distinct (keysOf obj)" and h: "distinct header"
  shows "(length obj = length header \<and> headerKeysPrimitive obj header)
     = (set (keysOf obj) = set header \<and> list_all (\<lambda>(k, v). isPrimitive v) obj)"
proof
  assume a: "length obj = length header \<and> headerKeysPrimitive obj header"
  then have sub: "set header \<subseteq> set (keysOf obj)"
    by (auto simp: headerKeysPrimitive_iff hasKey_iff)
  have "card (set header) = length header" using h by (rule distinct_card)
  moreover have "card (set (keysOf obj)) = length obj"
    using distinct_card [OF d] by (simp add: keysOf_def)
  ultimately have "card (set (keysOf obj)) = card (set header)" using a by simp
  with sub have eq: "set header = set (keysOf obj)"
    by (simp add: card_subset_eq)
  have "isPrimitive v" if "(k, v) \<in> set obj" for k v
  proof -
    from that have "k \<in> set (keysOf obj)" by (force simp: keysOf_def)
    with eq have "k \<in> set header" by simp
    with a have "isPrimitive (lookup obj k)" by (simp add: headerKeysPrimitive_iff)
    with lookup_entry [OF d that] show ?thesis by simp
  qed
  then have "list_all (\<lambda>(k, v). isPrimitive v) obj" by (auto simp: list_all_iff)
  with eq show "set (keysOf obj) = set header \<and> list_all (\<lambda>(k, v). isPrimitive v) obj"
    by simp
next
  assume a: "set (keysOf obj) = set header \<and> list_all (\<lambda>(k, v). isPrimitive v) obj"
  have "length obj = card (set (keysOf obj))"
    using distinct_card [OF d] by (simp add: keysOf_def)
  also have "\<dots> = card (set header)" using a by simp
  also have "\<dots> = length header" using h by (rule distinct_card)
  finally have len: "length obj = length header" .
  have "hasKey obj k \<and> isPrimitive (lookup obj k)" if "k \<in> set header" for k
  proof -
    from that a have k: "k \<in> set (keysOf obj)" by simp
    from lookup_in_values [OF k] a have "isPrimitive (lookup obj k)"
      by (auto simp: list_all_iff)
    with k show ?thesis by (simp add: hasKey_iff)
  qed
  with len show "length obj = length header \<and> headerKeysPrimitive obj header"
    by (simp add: headerKeysPrimitive_iff)
qed

lemma detectTabularHeader_iff:
  assumes d: "\<forall>obj \<in> set (firstObj # objects). distinct (keysOf obj)"
  shows "detectTabularHeader (firstObj # objects) =
     (if firstObj \<noteq> [] \<and> sameKeysAllScalar (firstObj # objects)
      then Some (sort (keysOf firstObj)) else None)"
proof -
  let ?h = "sort (keysOf firstObj)"
  have dh: "distinct ?h" using d by simp
  have "isTabularArray (firstObj # objects) ?h = sameKeysAllScalar (firstObj # objects)"
  proof -
    have "isTabularArray (firstObj # objects) ?h
       = (\<forall>obj \<in> set (firstObj # objects).
            length obj = length ?h \<and> headerKeysPrimitive obj ?h)"
      by (rule isTabularArray_iff)
    also have "\<dots> = (\<forall>obj \<in> set (firstObj # objects).
            set (keysOf obj) = set ?h \<and> list_all (\<lambda>(k, v). isPrimitive v) obj)"
      using d tabular_object_iff [OF _ dh] by blast
    also have "\<dots> = sameKeysAllScalar (firstObj # objects)"
      by (simp add: sameKeysAllScalar_def list_all_iff)
    finally show ?thesis .
  qed
  then show ?thesis by (simp add: detectTabularHeader_def Let_def)
qed

lemma indentationString_Push [simp]: "indentationString (Push w depth s) = indentationString w"
  by (simp add: Push_def)

lemma lines_Push [simp]:
  "lines (Push w depth s) = lines w @ [Repeat (indentationString w) depth @ s]"
  by (simp add: Push_def)

lemma fold_Push:
  "fold (\<lambda>x w. Push w depth (g x)) xs w
     = w\<lparr>lines := lines w @ map (\<lambda>x. Repeat (indentationString w) depth @ g x) xs\<rparr>"
  by (induction xs arbitrary: w) (simp_all add: Push_def)

lemma writeTabularRows_lines:
  "writeTabularRows fnum objects header w depth opts
     = w\<lparr>lines := lines w @
          map (\<lambda>obj. Repeat (indentationString w) depth
                @ Join (map (\<lambda>f. encodePrimitive fnum (lookup obj f) (Delimiter opts)) header)
                    (Delimiter opts)) objects\<rparr>"
  by (simp add: writeTabularRows_def fold_Push joinEncodedValues_def comp_def)

lemma not_prims_objects:
  "objects \<noteq> [] \<Longrightarrow> \<not> isArrayOfPrimitives (map VObject objects)"
  by (cases objects) simp_all

lemma not_arrays_objects:
  "objects \<noteq> [] \<Longrightarrow> \<not> isArrayOfArrays (map VObject objects)"
  by (cases objects) (simp_all add: isArray_def)

text \<open>
  Claim C1, as stated, fails for an array of objects without keys: all of them have the
  key set of the first one and no value that is not a scalar, but \<open>detectTabularHeader\<close>
  returns \<open>nil\<close> for an empty first object, and the array is rendered as a list of
  bullets, not as a header and one (empty) row per object.
\<close>

theorem encodeArray_empty_objects_not_tabular:
  "sameKeysAllScalar ([[], []] :: int obj list)
   \<and> Encode Itoa (VArray [VObject [], VObject []]) []
       = Inr (''[2]:'' @ [CHR 0x0A] @ ''  -'' @ [CHR 0x0A] @ ''  -'', None)
   \<and> lines (encodeArray Itoa [] [VObject [], VObject []]
              \<lparr>lines = [], indentationString = ''  ''\<rparr> 0 defaultOptions)
       = [''[2]:'', ''  -'', ''  -'']
   \<and> tabularLines Itoa [] [[], []] ''  '' 0 defaultOptions = [''[2]:'', ''  '', ''  '']"
  by code_simp

text \<open>
  Claim C1, amended.  For a non-empty array of objects whose first object has at least
  one key: if every object has exactly the key set of the first object and only scalar
  values, \<open>encodeArray\<close> appends the header line with the sorted keys of the first object
  as field list and then one row per object (so as many rows as the array has
  elements), each row the encoded field values joined by the delimiter in the order of
  the field list; if some object has another key set or a value that is not a scalar,
  or the first object has no key, the array is rendered as a list
  (\<open>encodeMixedArrayAsListItems\<close>).
\<close>

theorem encodeArray_tabular:
  assumes o: "isArrayOfObjects arr" and ne: "arr \<noteq> []"
    and d: "\<forall>obj \<in> set (map asObject arr). distinct (keysOf obj)"
  shows
    "(asObject (hd arr) \<noteq> [] \<and> sameKeysAllScalar (map asObject arr) \<longrightarrow>
        encodeArray fnum k arr w depth opts
          = w\<lparr>lines := lines w
               @ tabularLines fnum k (map asObject arr) (indentationString w) depth opts\<rparr>
        \<and> length (tabularLines fnum k (map asObject arr) (indentationString w) depth opts)
          = 1 + length arr)
     \<and> (\<not> (asObject (hd arr) \<noteq> [] \<and> sameKeysAllScalar (map asObject arr)) \<longrightarrow>
        encodeArray fnum k arr w depth opts
          = encodeMixedArrayAsListItems fnum k arr w depth opts)"
proof -
  from ne obtain firstObj objects where m: "map asObject arr = firstObj # objects"
    by (cases arr) auto
  with ne have h: "asObject (hd arr) = firstObj" by (cases arr) auto
  from asObject_guarded [OF o] m have arr: "arr = map VObject (firstObj # objects)" by simp
  have np: "\<not> isArrayOfPrimitives arr" and na: "\<not> isArrayOfArrays arr"
    using arr not_prims_objects [of "firstObj # objects"]
      not_arrays_objects [of "firstObj # objects"] by simp_all
  from d m have dt: "detectTabularHeader (map asObject arr) =
     (if firstObj \<noteq> [] \<and> sameKeysAllScalar (firstObj # objects)
      then Some (sort (keysOf firstObj)) else None)"
    using detectTabularHeader_iff [of firstObj objects] by simp
  show ?thesis
  proof (intro conjI impI)
    assume e: "asObject (hd arr) \<noteq> [] \<and> sameKeysAllScalar (map asObject arr)"
    with dt h m have "detectTabularHeader (map asObject arr) = Some (sort (keysOf firstObj))"
      by simp
    then show "encodeArray fnum k arr w depth opts
          = w\<lparr>lines := lines w
               @ tabularLines fnum k (map asObject arr) (indentationString w) depth opts\<rparr>"
      using ne np na o
      by (simp add: encodeArray.simps [of fnum k arr] Let_def encodeArrayOfObjectsAsTabular_def
          writeTabularRows_lines tabularLines_def m)
  next
    show "length (tabularLines fnum k (map asObject arr) (indentationString w) depth opts)
          = 1 + length arr"
      by (simp add: tabularLines_def Let_def)
  next
    assume e: "\<not> (asObject (hd arr) \<noteq> [] \<and> sameKeysAllScalar (map asObject arr))"
    with dt h m have "detectTabularHeader (map asObject arr) = None" by auto
    then show "encodeArray fnum k arr w depth opts
          = encodeMixedArrayAsListItems fnum k arr w depth opts"
      using ne np na o by (simp add: encodeArray.simps [of fnum k arr] Let_def)
  qed
qed

lemma two_rows_objects:
  "isArrayOfObjects
     [VObject [(''id'', VNumber (1::int)), (''name'', VString ''Alice'')],
      VObject [(''name'', VString ''Bob''), (''id'', VNumber 2)]]"
  by (simp add: isObject_def)

theorem encodeArray_tabular_witness:
  "encodeArray Itoa ''items''
     [VObject [(''id'', VNumber 1), (''name'', VString ''Alice'')],
      VObject [(''name'', VString ''Bob''), (''id'', VNumber 2)]]
     \<lparr>lines = [], indentationString = ''  ''\<rparr> 0 defaultOptions
   = \<lparr>lines = [''items[2]{id,name}:'', ''  1,Alice'', ''  2,Bob''],
      indentationString = ''  ''\<rparr>"
proof -
  let ?arr = "[VObject [(''id'', VNumber (1::int)), (''name'', VString ''Alice'')],
               VObject [(''name'', VString ''Bob''), (''id'', VNumber 2)]]"
  let ?w = "\<lparr>lines = [], indentationString = ''  ''\<rparr>"
  have ne: "?arr \<noteq> []" by simp
  have d: "\<forall>obj \<in> set (map asObject ?arr). distinct (keysOf obj)"
    by (simp add: keysOf_def)
  have s: "asObject (hd ?arr) \<noteq> [] \<and> sameKeysAllScalar (map asObject ?arr)"
    by code_simp
  have t: "tabularLines Itoa ''items'' (map asObject ?arr) ''  '' 0 defaultOptions
      = [''items[2]{id,name}:'', ''  1,Alice'', ''  2,Bob'']"
    by code_simp
  from encodeArray_tabular [OF two_rows_objects ne d, of Itoa "''items''" ?w 0 defaultOptions]
  have "asObject (hd ?arr) \<noteq> [] \<and> sameKeysAllScalar (map asObject ?arr) \<longrightarrow>
        encodeArray Itoa ''items'' ?arr ?w 0 defaultOptions
          = ?w\<lparr>lines := lines ?w
               @ tabularLines Itoa ''items'' (map asObject ?arr) (indentationString ?w) 0
                   defaultOptions\<rparr>
        \<and> length (tabularLines Itoa ''items'' (map asObject ?arr) (indentationString ?w) 0
                   defaultOptions)
          = 1 + length ?arr"
    by (rule conjunct1)
  from this s have "encodeArray Itoa ''items'' ?arr ?w 0 defaultOptions
          = ?w\<lparr>lines := lines ?w
               @ tabularLines Itoa ''items'' (map asObject ?arr) (indentationString ?w) 0
                   defaultOptions\<rparr>
        \<and> length (tabularLines Itoa ''items'' (map asObject ?arr) (indentationString ?w) 0
                   defaultOptions)
          = 1 + length ?arr"
    by (rule mp)
  then have "encodeArray Itoa ''items'' ?arr ?w 0 defaultOptions
          = ?w\<lparr>lines := lines ?w
               @ tabularLines Itoa ''items'' (map asObject ?arr) (indentationString ?w) 0
                   defaultOptions\<rparr>"
    by (rule conjunct1)
  with t show ?thesis by simp
qed

section \<open>List items\<close>

text \<open>
  Claim C3 says that the list rendering of an array omits no element.
  \<open>encodeMixedArrayAsListItems\<close> renders a scalar, an array of scalars and an object, but
  it has no branch for an array element that is not an array of scalars: such an element
  is skipped without a line.  Here the array under \<open>items\<close> has two elements, the header
  says so, and one line follows.
\<close>

theorem encodeMixedArrayAsListItems_drops_nested_array:
  "Encode fnum
     (VObject [(''items'', VArray [VArray [VObject [(''a'', VBool True)]], VString ''x''])]) []
     = Inr (''items[2]:'' @ [CHR 0x0A] @ ''  - x'', None)"
  by code_simp

text \<open>
  In \<open>encodeObjectAsListItem\<close> the header of a first value that is an array rendered as a
  list is written by hand and not by \<open>formatHeader\<close>: it has neither the length marker nor
  the delimiter.
\<close>

lemma list_item_header_ignores_options:
  "Encode fnum
     (VArray [VObject [(''k'', VArray [VObject [(''a'', VBool True)], VObject []])]])
     [WithLengthMarker, WithDelimiter ''|'']
     = Inr (''[#1|]:'' @ [CHR 0x0A] @ ''  - k[2]:'' @ [CHR 0x0A] @ ''    - a: true''
            @ [CHR 0x0A] @ ''    -'', None)"
  by code_simp


























text \<open>
  The first field of an object as a list item: in every case a bullet line is pushed,
  then what the first value needs below it, then the other keys follow.
\<close>

lemma lookup_not_null_key:
  "lookup obj k \<noteq> VNull \<Longrightarrow> k \<in> set (keysOf obj)"
  by (auto simp: lookup_def keysOf_def split: option.splits dest!: map_of_SomeD intro: rev_image_eqI)













section \<open>Independence of the order of the map entries\<close>

text \<open>
  \<open>canonObj\<close> permutes the entries of an object with distinct keys: the sorted keys,
  the number of entries and the value under every key stay what they were, up to
  \<open>canon\<close> of the value.
\<close>

lemma keysOf_canonObj_set: "set (keysOf (canonObj obj)) = set (keysOf obj)"
  by (force simp: keysOf_def)

lemma keysOf_canonObj_distinct:
  assumes "distinct (keysOf obj)"
  shows "distinct (keysOf (canonObj obj))"
proof -
  from assms have "distinct (map fst (map (map_prod (\<lambda>k. k) canon) obj))"
    by (simp add: keysOf_def comp_def)
  then have "distinct (map (map_prod (\<lambda>k. k) canon) obj)" and "inj_on fst (set (map (map_prod (\<lambda>k. k) canon) obj))"
    by (simp_all only: distinct_map)
  then have "distinct (map fst (canonObj obj))"
    by (simp only: distinct_map distinct_sort set_sort)
  then show ?thesis by (simp add: keysOf_def)
qed

lemma sort_keysOf_canonObj:
  assumes "distinct (keysOf obj)"
  shows "sort (keysOf (canonObj obj)) = sort (keysOf obj)"
proof (rule sorted_distinct_set_unique)
  show "distinct (sort (keysOf (canonObj obj)))"
    using keysOf_canonObj_distinct [OF assms] by simp
  show "distinct (sort (keysOf obj))" using assms by simp
  show "set (sort (keysOf (canonObj obj))) = set (sort (keysOf obj))"
    by (simp add: keysOf_canonObj_set)
qed simp_all

lemma map_of_canonObj:
  assumes "distinct (keysOf obj)"
  shows "map_of (canonObj obj) k = map_option canon (map_of obj k)"
proof -
  have "map_of (canonObj obj) = map_of (map (map_prod (\<lambda>k. k) canon) obj)"
  proof (rule map_of_inject_set [THEN iffD2])
    show "distinct (map fst (canonObj obj))"
      using keysOf_canonObj_distinct [OF assms] by (simp add: keysOf_def)
    show "distinct (map fst (map (map_prod (\<lambda>k. k) canon) obj))"
      using assms by (simp add: keysOf_def comp_def)
    show "set (canonObj obj) = set (map (map_prod (\<lambda>k. k) canon) obj)" by simp
  qed
  moreover have "map_of (map (map_prod (\<lambda>k. k) canon) obj) k = map_option canon (map_of obj k)"
    by (induction obj) auto
  ultimately show ?thesis by simp
qed

lemma lookup_canonObj:
  "distinct (keysOf obj) \<Longrightarrow> lookup (canonObj obj) k = canon (lookup obj k)"
  by (simp add: lookup_def map_of_canonObj split: option.splits)

lemma hasKey_canonObj:
  "distinct (keysOf obj) \<Longrightarrow> hasKey (canonObj obj) k = hasKey obj k"
  by (simp add: hasKey_def map_of_canonObj)

lemma length_keysOf_canonObj: "length (keysOf (canonObj obj)) = length (keysOf obj)"
  by (simp add: keysOf_def)

lemma keysOf_canonObj_Nil: "(keysOf (canonObj obj) = []) = (keysOf obj = [])"
  using length_keysOf_canonObj [of obj] by (simp only: length_0_conv [symmetric])

lemma isPrimitive_canon: "isPrimitive (canon v) = isPrimitive v"
  by (cases v) (simp_all add: isPrimitive_def)

lemma isArray_canon: "isArray (canon v) = isArray v"
  by (cases v) (simp_all add: isArray_def)

lemma isObject_canon: "isObject (canon v) = isObject v"
  by (cases v) (simp_all add: isObject_def)

lemma encodePrimitive_canon: "encodePrimitive fnum (canon v) d = encodePrimitive fnum v d"
  by (cases v) (simp_all add: encodePrimitive_def)

lemma isArrayOfPrimitives_canon: "isArrayOfPrimitives (map canon arr) = isArrayOfPrimitives arr"
  by (induction arr) (simp_all add: isPrimitive_canon)

lemma isArrayOfArrays_canon: "isArrayOfArrays (map canon arr) = isArrayOfArrays arr"
  by (induction arr) (simp_all add: isArray_canon)

lemma isArrayOfObjects_canon: "isArrayOfObjects (map canon arr) = isArrayOfObjects arr"
  by (induction arr) (simp_all add: isObject_canon)

lemma allPrimitiveArrays_canon: "allPrimitiveArrays (map canon arr) = allPrimitiveArrays arr"
proof (induction arr)
  case (Cons item arr)
  then show ?case by (cases item) (simp_all add: isArrayOfPrimitives_canon)
qed simp

lemma joinEncodedValues_canon:
  "joinEncodedValues fnum (map canon vs) d = joinEncodedValues fnum vs d"
  by (simp add: joinEncodedValues_def comp_def encodePrimitive_canon)

lemma formatInlineArray_canon:
  "formatInlineArray fnum (map canon vs) d k m = formatInlineArray fnum vs d k m"
  by (simp add: formatInlineArray_def Let_def joinEncodedValues_canon)

lemma asObject_canon: "asObject (canon v) = canonObj (asObject v)"
  by (cases v) (simp_all add: asObject_def)

lemma wf_value_lookup: "wf_value (VObject obj) \<Longrightarrow> wf_value (lookup obj k)"
  by (auto simp: lookup_def split: option.splits dest!: map_of_SomeD)

lemma wf_value_asObject: "wf_value v \<Longrightarrow> distinct (keysOf (asObject v))"
  by (cases v) (simp_all add: asObject_def keysOf_def)

text \<open>
  The functions without recursion read an object only through its length, \<open>hasKey\<close>,
  \<open>lookup\<close> and its sorted keys.
\<close>

lemma headerKeysPrimitive_canon:
  "distinct (keysOf obj) \<Longrightarrow>
   headerKeysPrimitive (canonObj obj) header = headerKeysPrimitive obj header"
  by (induction header) (simp_all add: hasKey_canonObj lookup_canonObj isPrimitive_canon)

lemma isTabularArray_canon:
  "\<forall>obj \<in> set objects. distinct (keysOf obj) \<Longrightarrow>
   isTabularArray (map canonObj objects) header = isTabularArray objects header"
  by (induction objects) (simp_all add: headerKeysPrimitive_canon)

lemma detectTabularHeader_canon:
  assumes "\<forall>obj \<in> set objects. distinct (keysOf obj)"
  shows "detectTabularHeader (map canonObj objects) = detectTabularHeader objects"
proof (cases objects)
  case Nil
  then show ?thesis by (simp add: detectTabularHeader_def)
next
  case (Cons firstObj rest)
  with assms have d: "distinct (keysOf firstObj)" by simp
  from assms have "isTabularArray (map canonObj objects) (sort (keysOf firstObj))
      = isTabularArray objects (sort (keysOf firstObj))"
    by (rule isTabularArray_canon)
  with Cons show ?thesis
    by (simp add: detectTabularHeader_def Let_def sort_keysOf_canonObj [OF d])
qed

lemma writeTabularRows_canon:
  assumes "\<forall>obj \<in> set objects. distinct (keysOf obj)"
  shows "writeTabularRows fnum (map canonObj objects) header w depth opts
       = writeTabularRows fnum objects header w depth opts"
proof -
  have "Join (map (\<lambda>f. encodePrimitive fnum (lookup (canonObj obj) f) (Delimiter opts)) header)
          (Delimiter opts)
      = Join (map (\<lambda>f. encodePrimitive fnum (lookup obj f) (Delimiter opts)) header)
          (Delimiter opts)" if "obj \<in> set objects" for obj
    using that assms by (simp add: lookup_canonObj encodePrimitive_canon)
  then show ?thesis by (simp add: writeTabularRows_lines comp_def)
qed

lemma map_asObject_canon: "map asObject (map canon arr) = map canonObj (map asObject arr)"
  by (simp add: asObject_canon)

lemma distinct_asObject:
  "\<forall>x \<in> set arr. wf_value x \<Longrightarrow> \<forall>obj \<in> set (map asObject arr). distinct (keysOf obj)"
  by (simp add: wf_value_asObject)

lemma detectTabularHeader_canon_array:
  assumes "\<forall>x \<in> set arr. wf_value x"
  shows "detectTabularHeader (map asObject (map canon arr)) = detectTabularHeader (map asObject arr)"
  unfolding map_asObject_canon
  using distinct_asObject [OF assms] by (rule detectTabularHeader_canon)

lemma writeTabularRows_canon_array:
  assumes "\<forall>x \<in> set arr. wf_value x"
  shows "writeTabularRows fnum (map asObject (map canon arr)) header w depth opts
       = writeTabularRows fnum (map asObject arr) header w depth opts"
  unfolding map_asObject_canon
  using distinct_asObject [OF assms] by (rule writeTabularRows_canon)

lemma encodeArrayOfArraysAsListItems_canon:
  "encodeArrayOfArraysAsListItems fnum k (map canon arr) w depth opts
     = encodeArrayOfArraysAsListItems fnum k arr w depth opts"
proof -
  have "(case canon item of
           VArray arr \<Rightarrow>
             if isArrayOfPrimitives arr
             then Push w' (depth + 1)
                    (ListItemPrefix
                     @ formatInlineArray fnum arr (Delimiter opts) [] (LengthMarker opts))
             else w'
         | _ \<Rightarrow> w')
      = (case item of
           VArray arr \<Rightarrow>
             if isArrayOfPrimitives arr
             then Push w' (depth + 1)
                    (ListItemPrefix
                     @ formatInlineArray fnum arr (Delimiter opts) [] (LengthMarker opts))
             else w'
         | _ \<Rightarrow> w')" for item w'
    by (cases item) (simp_all add: isArrayOfPrimitives_canon formatInlineArray_canon)
  then show ?thesis
    by (simp add: encodeArrayOfArraysAsListItems_def Let_def fold_map comp_def)
qed

text \<open>
  One unfolding of each of the five recursive functions, given the property for the
  calls it makes.
\<close>

lemma fold_listItem_canon:
  assumes "\<And>obj w d. VObject obj \<in> set items \<Longrightarrow>
      encodeObjectAsListItem fnum (canonObj obj) w d opts
        = encodeObjectAsListItem fnum obj w d opts"
  shows "fold (\<lambda>item w.
                 if isPrimitive item
                 then Push w (depth + 1)
                        (ListItemPrefix @ encodePrimitive fnum item (Delimiter opts))
                 else case item of
                        VArray arr \<Rightarrow>
                          if isArrayOfPrimitives arr
                          then Push w (depth + 1)
                                 (ListItemPrefix
                                  @ formatInlineArray fnum arr (Delimiter opts) []
                                      (LengthMarker opts))
                          else w
                      | VObject obj \<Rightarrow> encodeObjectAsListItem fnum obj w (depth + 1) opts
                      | _ \<Rightarrow> w)
           (map canon items) w0
       = fold (\<lambda>item w.
                 if isPrimitive item
                 then Push w (depth + 1)
                        (ListItemPrefix @ encodePrimitive fnum item (Delimiter opts))
                 else case item of
                        VArray arr \<Rightarrow>
                          if isArrayOfPrimitives arr
                          then Push w (depth + 1)
                                 (ListItemPrefix
                                  @ formatInlineArray fnum arr (Delimiter opts) []
                                      (LengthMarker opts))
                          else w
                      | VObject obj \<Rightarrow> encodeObjectAsListItem fnum obj w (depth + 1) opts
                      | _ \<Rightarrow> w)
           items w0"
    (is "fold ?g (map canon items) w0 = fold ?g items w0")
proof -
  have g: "?g (canon item) w' = ?g item w'" if "item \<in> set items" for item w'
    by (cases item)
      (use that assms in \<open>simp_all add: isArrayOfPrimitives_canon formatInlineArray_canon\<close>)
  show ?thesis unfolding fold_map by (rule fold_cong) (simp_all add: g)
qed

lemma fold_objectItem_canon:
  assumes "\<And>obj w d. VObject obj \<in> set items \<Longrightarrow>
      encodeObjectAsListItem fnum (canonObj obj) w d opts
        = encodeObjectAsListItem fnum obj w d opts"
  shows "fold (\<lambda>item w.
                 case item of
                   VObject itemObj \<Rightarrow> encodeObjectAsListItem fnum itemObj w (depth + 1) opts
                 | _ \<Rightarrow> w)
           (map canon items) w0
       = fold (\<lambda>item w.
                 case item of
                   VObject itemObj \<Rightarrow> encodeObjectAsListItem fnum itemObj w (depth + 1) opts
                 | _ \<Rightarrow> w)
           items w0"
    (is "fold ?g (map canon items) w0 = fold ?g items w0")
proof -
  have g: "?g (canon item) w' = ?g item w'" if "item \<in> set items" for item w'
    by (cases item) (use that assms in simp_all)
  show ?thesis unfolding fold_map by (rule fold_cong) (simp_all add: g)
qed

lemma encodeMixedArrayAsListItems_step:
  assumes "\<And>obj w d. VObject obj \<in> set items \<Longrightarrow>
      encodeObjectAsListItem fnum (canonObj obj) w d opts
        = encodeObjectAsListItem fnum obj w d opts"
  shows "encodeMixedArrayAsListItems fnum k (map canon items) w depth opts
       = encodeMixedArrayAsListItems fnum k items w depth opts"
  by (simp only: encodeMixedArrayAsListItems.simps Let_def length_map
      fold_listItem_canon [of items fnum opts, OF assms])

lemma encodeArray_step:
  assumes wf: "\<forall>x \<in> set arr. wf_value x"
    and m: "\<And>w d. encodeMixedArrayAsListItems fnum k (map canon arr) w d opts
       = encodeMixedArrayAsListItems fnum k arr w d opts"
  shows "encodeArray fnum k (map canon arr) w depth opts = encodeArray fnum k arr w depth opts"
proof -
  note d = distinct_asObject [OF wf]
  have t: "detectTabularHeader (map asObject (map canon arr)) = detectTabularHeader (map asObject arr)"
    unfolding map_asObject_canon using d by (rule detectTabularHeader_canon)
  have r: "encodeArrayOfObjectsAsTabular fnum k (map asObject (map canon arr)) header w depth opts
      = encodeArrayOfObjectsAsTabular fnum k (map asObject arr) header w depth opts" for header
    unfolding map_asObject_canon
    by (simp only: encodeArrayOfObjectsAsTabular_def Let_def length_map
        writeTabularRows_canon [OF d])
  show ?thesis
    unfolding encodeArray.simps [of fnum k "map canon arr"] encodeArray.simps [of fnum k arr]
    by (simp only: isArrayOfPrimitives_canon isArrayOfArrays_canon isArrayOfObjects_canon
        allPrimitiveArrays_canon encodeArrayOfArraysAsListItems_canon t r m length_map
        encodeInlinePrimitiveArray_def formatInlineArray_canon Let_def)
qed

lemma encodeObject_step:
  assumes d: "distinct (keysOf obj)"
    and kv: "\<And>k w. k \<in> set (keysOf obj) \<Longrightarrow>
       encodeKeyValuePair fnum k (canon (lookup obj k)) w depth opts
         = encodeKeyValuePair fnum k (lookup obj k) w depth opts"
  shows "encodeObject fnum (canonObj obj) w depth opts = encodeObject fnum obj w depth opts"
proof -
  have "fold (\<lambda>k w. encodeKeyValuePair fnum k (lookup (canonObj obj) k) w depth opts)
          (sort (keysOf obj)) w
      = fold (\<lambda>k w. encodeKeyValuePair fnum k (lookup obj k) w depth opts)
          (sort (keysOf obj)) w"
    by (rule fold_cong) (simp_all add: lookup_canonObj [OF d] kv)
  then show ?thesis
    by (simp add: encodeObject.simps sort_keysOf_canonObj [OF d])
qed

lemma encodeKeyValuePair_step:
  assumes a: "\<And>arr w d. v = VArray arr \<Longrightarrow>
        encodeArray fnum k (map canon arr) w d opts = encodeArray fnum k arr w d opts"
    and o: "\<And>obj w d. v = VObject obj \<Longrightarrow>
        encodeObject fnum (canonObj obj) w d opts = encodeObject fnum obj w d opts"
  shows "encodeKeyValuePair fnum k (canon v) w depth opts
       = encodeKeyValuePair fnum k v w depth opts"
  by (cases v)
    (use a o in \<open>simp_all add: encodeKeyValuePair.simps Let_def keysOf_canonObj_Nil\<close>)

lemma encodeObjectAsListItem_step:
  assumes d: "distinct (keysOf obj)"
    and wfv: "\<And>arr. lookup obj (hd (sort (keysOf obj))) = VArray arr
        \<Longrightarrow> \<forall>x \<in> set arr. wf_value x"
    and kv: "\<And>k w d. k \<in> set (keysOf obj) \<Longrightarrow>
       encodeKeyValuePair fnum k (canon (lookup obj k)) w d opts
         = encodeKeyValuePair fnum k (lookup obj k) w d opts"
    and li: "\<And>arr itemObj w d.
       lookup obj (hd (sort (keysOf obj))) = VArray arr \<Longrightarrow> VObject itemObj \<in> set arr \<Longrightarrow>
       encodeObjectAsListItem fnum (canonObj itemObj) w d opts
         = encodeObjectAsListItem fnum itemObj w d opts"
    and eo: "\<And>nested w d. lookup obj (hd (sort (keysOf obj))) = VObject nested \<Longrightarrow>
       encodeObject fnum (canonObj nested) w d opts = encodeObject fnum nested w d opts"
  shows "encodeObjectAsListItem fnum (canonObj obj) w depth opts
       = encodeObjectAsListItem fnum obj w depth opts"
proof (cases "sort (keysOf obj)")
  case Nil
  then show ?thesis
    by (simp add: encodeObjectAsListItem.simps sort_keysOf_canonObj [OF d])
next
  case (Cons k ks)
  let ?W = "\<lambda>firstValue.
                 (if isPrimitive firstValue
                  then Push w depth
                         (ListItemPrefix @ encodeKey k @ '': ''
                          @ encodePrimitive fnum firstValue (Delimiter opts))
                  else case firstValue of
                    VArray arr \<Rightarrow>
                      if isArrayOfPrimitives arr
                      then Push w depth
                             (ListItemPrefix
                              @ formatInlineArray fnum arr (Delimiter opts) k
                                  (LengthMarker opts))
                      else if isArrayOfObjects arr
                      then (let objects = map asObject arr
                            in case detectTabularHeader objects of
                                 Some header \<Rightarrow>
                                   writeTabularRows fnum objects header
                                     (Push w depth
                                        (ListItemPrefix
                                         @ formatHeader (length arr)
                                             \<lparr>opt_key = k, opt_fields = header,
                                              opt_delimiter = Delimiter opts,
                                              opt_lengthMarker = LengthMarker opts\<rparr>))
                                     (depth + 1) opts
                               | None \<Rightarrow>
                                   fold (\<lambda>item w.
                                           case item of
                                             VObject itemObj \<Rightarrow>
                                               encodeObjectAsListItem fnum itemObj w (depth + 1)
                                                 opts
                                           | _ \<Rightarrow> w)
                                     arr
                                     (Push w depth
                                        (ListItemPrefix @ encodeKey k @ ''[''
                                         @ Itoa (int (length arr)) @ '']:'')))
                      else
                        fold (\<lambda>item w.
                                if isPrimitive item
                                then Push w (depth + 1)
                                       (ListItemPrefix
                                        @ encodePrimitive fnum item (Delimiter opts))
                                else case item of
                                  VArray itemArr \<Rightarrow>
                                    if isArrayOfPrimitives itemArr
                                    then Push w (depth + 1)
                                           (ListItemPrefix
                                            @ formatInlineArray fnum itemArr (Delimiter opts) []
                                                (LengthMarker opts))
                                    else w
                                | VObject itemObj \<Rightarrow>
                                    encodeObjectAsListItem fnum itemObj w (depth + 1) opts
                                | _ \<Rightarrow> w)
                          arr
                          (Push w depth
                             (ListItemPrefix @ encodeKey k @ ''[''
                              @ Itoa (int (length arr)) @ '']:''))
                  | VObject nestedObj \<Rightarrow>
                      if length (keysOf nestedObj) = 0
                      then Push w depth (ListItemPrefix @ encodeKey k @ Colon)
                      else encodeObject fnum nestedObj
                             (Push w depth (ListItemPrefix @ encodeKey k @ Colon))
                             (depth + 2) opts
                  | _ \<Rightarrow> w)"
  have unfold: "encodeObjectAsListItem fnum ob w depth opts
      = fold (\<lambda>k w. encodeKeyValuePair fnum k (lookup ob k) w (depth + 1) opts) ks
          (?W (lookup ob k))" if "sort (keysOf ob) = k # ks" for ob
    using that by (simp add: encodeObjectAsListItem.simps Let_def)
  have hd: "hd (sort (keysOf obj)) = k" using Cons by simp
  have first: "?W (canon (lookup obj k)) = ?W (lookup obj k)"
  proof (cases "lookup obj k")
    case (VArray arr)
    note wfa = wfv [unfolded hd, OF VArray]
    note lia = li [unfolded hd, OF VArray]
    show ?thesis
      unfolding VArray canon.simps
      by (simp only: isPrimitive_simps if_False val.case isArrayOfPrimitives_canon
          formatInlineArray_canon isArrayOfObjects_canon Let_def length_map
          detectTabularHeader_canon_array [OF wfa] writeTabularRows_canon_array [OF wfa]
          fold_listItem_canon [of arr fnum opts, OF lia]
          fold_objectItem_canon [of arr fnum opts, OF lia])
  next
    case (VObject nested)
    from eo [unfolded hd, OF VObject] show ?thesis
      unfolding VObject by (simp add: keysOf_canonObj_Nil)
  qed simp_all
  have rest: "fold (\<lambda>k w. encodeKeyValuePair fnum k (lookup (canonObj obj) k) w (depth + 1) opts) ks w0
      = fold (\<lambda>k w. encodeKeyValuePair fnum k (lookup obj k) w (depth + 1) opts) ks w0" for w0
  proof (rule fold_cong)
    fix x assume "x \<in> set ks"
    with Cons have "x \<in> set (sort (keysOf obj))" by simp
    then have "x \<in> set (keysOf obj)" by simp
    then show "(\<lambda>w. encodeKeyValuePair fnum x (lookup (canonObj obj) x) w (depth + 1) opts)
        = (\<lambda>w. encodeKeyValuePair fnum x (lookup obj x) w (depth + 1) opts)"
      by (simp add: lookup_canonObj [OF d] kv)
  qed simp_all
  from Cons have c: "sort (keysOf (canonObj obj)) = k # ks"
    by (simp add: sort_keysOf_canonObj [OF d])
  show ?thesis
    unfolding unfold [OF c] unfold [OF Cons]
    by (simp only: lookup_canonObj [OF d] first rest [unfolded lookup_canonObj [OF d]])
qed

text \<open>
  The five functions together, by induction on the size of the value.
\<close>

lemma encoder_canon:
  "wf_value v \<Longrightarrow>
     (\<forall>k w d. encodeKeyValuePair fnum k (canon v) w d opts
               = encodeKeyValuePair fnum k v w d opts)
   \<and> (\<forall>obj w d. v = VObject obj \<longrightarrow>
          encodeObject fnum (canonObj obj) w d opts = encodeObject fnum obj w d opts
        \<and> encodeObjectAsListItem fnum (canonObj obj) w d opts
            = encodeObjectAsListItem fnum obj w d opts)
   \<and> (\<forall>arr k w d. v = VArray arr \<longrightarrow>
          encodeArray fnum k (map canon arr) w d opts = encodeArray fnum k arr w d opts)"
proof (induction v rule: measure_induct_rule [where f = size])
  case (less v)
  note wf = \<open>wf_value v\<close>
  have IH_kv: "encodeKeyValuePair fnum k (canon u) w d opts
      = encodeKeyValuePair fnum k u w d opts"
    if "size u < size v" "wf_value u" for u k w d
    using less.IH [OF that] by blast
  have IH_obj: "encodeObject fnum (canonObj obj) w d opts = encodeObject fnum obj w d opts"
    and IH_li: "encodeObjectAsListItem fnum (canonObj obj) w d opts
            = encodeObjectAsListItem fnum obj w d opts"
    if "size (VObject obj) < size v" "wf_value (VObject obj)" for obj w d
    using less.IH [OF that] by blast+
  show ?case
  proof (cases v)
    case (VArray arr)
    from wf VArray have wfa: "\<forall>x \<in> set arr. wf_value x" by simp
    have li: "encodeObjectAsListItem fnum (canonObj obj) w d opts
            = encodeObjectAsListItem fnum obj w d opts"
      if "VObject obj \<in> set arr" for obj w d
    proof (rule IH_li)
      from size_elem [OF that] show "size (VObject obj) < size v" by (simp only: VArray)
      from wfa that show "wf_value (VObject obj)" by blast
    qed
    have mixed: "encodeMixedArrayAsListItems fnum k (map canon arr) w d opts
       = encodeMixedArrayAsListItems fnum k arr w d opts" for k w d
      by (rule encodeMixedArrayAsListItems_step) (rule li)
    have arr: "encodeArray fnum k (map canon arr) w d opts = encodeArray fnum k arr w d opts"
      for k w d
      using wfa by (rule encodeArray_step) (rule mixed)
    have kv: "encodeKeyValuePair fnum k (canon v) w d opts
               = encodeKeyValuePair fnum k v w d opts" for k w d
      by (rule encodeKeyValuePair_step) (auto simp: VArray arr)
    from kv arr VArray show ?thesis by simp
  next
    case (VObject obj)
    from wf VObject have d: "distinct (keysOf obj)" by (simp add: keysOf_def)
    have wfl: "wf_value (lookup obj k)" for k
      using wf unfolding VObject by (rule wf_value_lookup)
    have szl: "size (lookup obj k) < size v" if "k \<in> set (keysOf obj)" for k
      using size_lookup [OF that] by (simp only: VObject)
    have kvs: "encodeKeyValuePair fnum k (canon (lookup obj k)) w d opts
         = encodeKeyValuePair fnum k (lookup obj k) w d opts"
      if "k \<in> set (keysOf obj)" for k w d
      using szl [OF that] wfl by (rule IH_kv)
    have obj: "encodeObject fnum (canonObj obj) w d opts = encodeObject fnum obj w d opts"
      for w d
      using d by (rule encodeObject_step) (rule kvs)
    have li: "encodeObjectAsListItem fnum (canonObj obj) w d opts
            = encodeObjectAsListItem fnum obj w d opts" for w d
    proof (rule encodeObjectAsListItem_step [OF d])
      fix arr assume a: "lookup obj (hd (sort (keysOf obj))) = VArray arr"
      from wfl [of "hd (sort (keysOf obj))"] show "\<forall>x \<in> set arr. wf_value x"
        by (simp add: a)
    next
      fix k w d assume "k \<in> set (keysOf obj)"
      then show "encodeKeyValuePair fnum k (canon (lookup obj k)) w d opts
         = encodeKeyValuePair fnum k (lookup obj k) w d opts"
        by (rule kvs)
    next
      fix arr itemObj w d
      assume a: "lookup obj (hd (sort (keysOf obj))) = VArray arr"
        and i: "VObject itemObj \<in> set arr"
      from a have "hd (sort (keysOf obj)) \<in> set (keysOf obj)"
        by (intro lookup_not_null_key) simp
      from szl [OF this] have "size (VArray arr) < size v" by (simp only: a)
      with size_elem [OF i] have s: "size (VObject itemObj) < size v" by simp
      from wfl [of "hd (sort (keysOf obj))"] have "\<forall>x \<in> set arr. wf_value x"
        by (simp add: a)
      with i have w: "wf_value (VObject itemObj)" by blast
      from s w show "encodeObjectAsListItem fnum (canonObj itemObj) w d opts
         = encodeObjectAsListItem fnum itemObj w d opts"
        by (rule IH_li)
    next
      fix nested w d
      assume a: "lookup obj (hd (sort (keysOf obj))) = VObject nested"
      then have "hd (sort (keysOf obj)) \<in> set (keysOf obj)"
        by (intro lookup_not_null_key) simp
      from szl [OF this] have s: "size (VObject nested) < size v" by (simp only: a)
      from wfl [of "hd (sort (keysOf obj))"] have w: "wf_value (VObject nested)"
        by (simp only: a)
      from s w show "encodeObject fnum (canonObj nested) w d opts
          = encodeObject fnum nested w d opts"
        by (rule IH_obj)
    qed
    have kv: "encodeKeyValuePair fnum k (canon v) w d opts
               = encodeKeyValuePair fnum k v w d opts" for k w d
      by (rule encodeKeyValuePair_step) (auto simp: VObject obj)
    from kv obj li VObject show ?thesis by simp
  qed (simp_all add: encodeKeyValuePair.simps)
qed

lemma encodeValue_canon:
  assumes "wf_value v"
  shows "encodeValue fnum (canon v) opts = encodeValue fnum v opts"
proof (cases v)
  case (VArray arr)
  with encoder_canon [OF assms, of fnum opts] show ?thesis
    by (simp add: encodeValue_def split: sum.splits)
next
  case (VObject obj)
  with encoder_canon [OF assms, of fnum opts] show ?thesis
    by (simp add: encodeValue_def split: sum.splits)
qed (simp_all add: encodeValue_def)

lemma Encode_canon:
  "wf_value v \<Longrightarrow> Encode fnum (canon v) os = Encode fnum v os"
  by (simp add: Encode_def encodeValue_canon)

text \<open>
  Two lists of the same entries, in any two orders, have the same \<open>canon\<close>, and so the
  same text.
\<close>

lemma entries_eqI:
  "map fst xs = map fst ys \<Longrightarrow> distinct (map fst xs) \<Longrightarrow> set xs = set ys \<Longrightarrow> xs = ys"
proof (induction xs arbitrary: ys)
  case Nil
  then show ?case by simp
next
  case (Cons x xs)
  from Cons.prems(1) obtain y ys' where ys: "ys = y # ys'" by (cases ys) auto
  with Cons.prems(1) have f: "fst x = fst y" and m: "map fst xs = map fst ys'" by simp_all
  from Cons.prems(2) have nx: "fst x \<notin> set (map fst xs)" and dx: "distinct (map fst xs)"
    by simp_all
  from nx m have ny: "fst x \<notin> set (map fst ys')" by simp
  from Cons.prems(3) ys have "x \<in> set (y # ys')" by auto
  with ny have xy: "x = y" by force
  from nx have "x \<notin> set xs" by force
  moreover from ny have "x \<notin> set ys'" by force
  ultimately have "set xs = set ys'" using Cons.prems(3) ys xy by auto
  with Cons.IH [OF m dx] xy ys show ?case by simp
qed

lemma canon_permute:
  assumes "distinct (map fst kvs)" and "distinct (map fst kvs')" and "set kvs' = set kvs"
  shows "canon (VObject kvs') = canon (VObject kvs)"
proof -
  let ?a = "canonObj kvs'" and ?b = "canonObj kvs"
  have s: "set ?a = set ?b" using assms(3) by simp
  have da: "distinct (map fst ?a)"
    using keysOf_canonObj_distinct [of kvs'] assms(2) by (simp add: keysOf_def)
  have db: "distinct (map fst ?b)"
    using keysOf_canonObj_distinct [of kvs] assms(1) by (simp add: keysOf_def)
  have "map fst ?a = map fst ?b"
  proof (rule sorted_distinct_set_unique)
    show "set (map fst ?a) = set (map fst ?b)" using s by (simp only: set_map)
  qed (simp_all only: da db sorted_sort_key)
  then have "?a = ?b" using da s by (rule entries_eqI)
  then show ?thesis by simp
qed

lemma Encode_permuted_entries:
  assumes w: "wf_value (VObject kvs)" and d: "distinct (map fst kvs')"
    and s: "set kvs' = set kvs"
  shows "Encode fnum (VObject kvs') os = Encode fnum (VObject kvs) os"
proof -
  from w d s have w': "wf_value (VObject kvs')" by simp
  from w have "distinct (map fst kvs)" by simp
  then have "canon (VObject kvs') = canon (VObject kvs)" using d s by (rule canon_permute)
  with Encode_canon [OF w, of fnum os] Encode_canon [OF w', of fnum os]
  show ?thesis by simp
qed

text \<open>
  Claim C4.  \<open>Encode\<close> is a function of the value and the options, and its result does
  not depend on the order in which the entries of the maps are listed: two values that
  differ only in the order of the entries of their objects, at any depth, encode to the
  same result, for all options.  (The keys of every object are sorted before they are
  emitted.)
\<close>

theorem Encode_key_order_independent:
  assumes "wf_value v" and "wf_value v'" and "canon v = canon v'"
  shows "Encode fnum v os = Encode fnum v' os"
proof -
  have "Encode fnum v os = Encode fnum (canon v) os"
    using assms(1) by (simp add: Encode_canon)
  also have "\<dots> = Encode fnum (canon v') os" by (simp only: assms(3))
  also have "\<dots> = Encode fnum v' os" using assms(2) by (rule Encode_canon)
  finally show ?thesis .
qed

theorem Encode_key_order_independent_witness:
  "Encode Itoa
     (VObject [(''b'', VArray [VObject [(''y'', VNumber 1), (''x'', VNumber 2)]]),
               (''a'', VString ''s'')]) [WithDelimiter ''|'']
   = Encode Itoa
     (VObject [(''a'', VString ''s''),
               (''b'', VArray [VObject [(''x'', VNumber 2), (''y'', VNumber 1)]])])
     [WithDelimiter ''|'']
   \<and> Encode Itoa
     (VObject [(''b'', VArray [VObject [(''y'', VNumber 1), (''x'', VNumber 2)]]),
               (''a'', VString ''s'')]) [WithDelimiter ''|'']
   = Inr (''a: s'' @ [CHR 0x0A] @ ''b[1|]{x|y}:'' @ [CHR 0x0A] @ ''  2|1'', None)"
proof
  let ?v = "VObject [(''b'', VArray [VObject [(''y'', VNumber (1::int)), (''x'', VNumber 2)]]),
               (''a'', VString ''s'')]"
  let ?v' = "VObject [(''a'', VString ''s''),
               (''b'', VArray [VObject [(''x'', VNumber (2::int)), (''y'', VNumber 1)]])]"
  have w: "wf_value ?v" by code_simp
  have w': "wf_value ?v'" by code_simp
  have c: "canon ?v = canon ?v'" by code_simp
  from w w' c show "Encode Itoa ?v [WithDelimiter ''|''] = Encode Itoa ?v' [WithDelimiter ''|'']"
    by (rule Encode_key_order_independent)
next
  show "Encode Itoa
     (VObject [(''b'', VArray [VObject [(''y'', VNumber 1), (''x'', VNumber 2)]]),
               (''a'', VString ''s'')]) [WithDelimiter ''|'']
   = Inr (''a: s'' @ [CHR 0x0A] @ ''b[1|]{x|y}:'' @ [CHR 0x0A] @ ''  2|1'', None)"
    by code_simp
qed

end
